theory Spec2Isabelle
  imports
    Main
    "HOL-Library.Word"
    "HOL-Library.Product_Lexorder"
    "HOL-Library.List_Lexorder"
begin

unbundle bit_operations_syntax

section \<open>The OID registry of lib/oid\_registry.c\<close>

text \<open>
  A shallow embedding of \<^verbatim>\<open>look_up_OID\<close>, \<^verbatim>\<open>lookup_oid_digest_info\<close>,
  \<^verbatim>\<open>sprint_oid\<close> and \<^verbatim>\<open>sprint_OID\<close>. A C buffer given by a pointer and its
  size is a list whose length is the size: \<^verbatim>\<open>data\<close> with \<^verbatim>\<open>datasize\<close> is a list
  of octets, \<^verbatim>\<open>buffer\<close> with \<^verbatim>\<open>bufsize\<close> is a list of characters.
  \<^verbatim>\<open>unsigned char\<close> is an 8-bit word, \<^verbatim>\<open>unsigned\<close> a 32-bit word and
  \<^verbatim>\<open>unsigned long\<close> a 64-bit word (LP64, as on the 64-bit kernel). Counters and
  sizes that only index a list are natural numbers; the tables below are taken as smaller
  than \<open>2 ^ 31\<close> entries and the buffers as shorter than \<open>2 ^ 31\<close> bytes, where
  no C counter or \<^verbatim>\<open>int\<close> result wraps.
\<close>

type_synonym octet = "8 word"

subsection \<open>Hashing the OID data\<close>

text \<open>
  Lines 33 to 39 of the source:
  \<^verbatim>\<open>hash = datasize - 1;\<close>,
  \<^verbatim>\<open>for (i = 0; i < datasize; i++) hash += octets[i] * 33;\<close>,
  \<^verbatim>\<open>hash = (hash >> 24) ^ (hash >> 16) ^ (hash >> 8) ^ hash;\<close>,
  \<^verbatim>\<open>hash &= 0xff;\<close>.
  The product \<^verbatim>\<open>octets[i] * 33\<close> is an \<^verbatim>\<open>int\<close> of at most 8415; adding it to the
  \<^verbatim>\<open>unsigned\<close> accumulator wraps modulo \<open>2 ^ 32\<close>.
\<close>

definition hash_octets :: "octet list \<Rightarrow> 32 word" where
  "hash_octets octets =
     foldl (\<lambda>hash b. hash + ucast b * 33) (of_nat (length octets) - 1) octets"

definition hash_fold :: "32 word \<Rightarrow> 32 word" where
  "hash_fold hash =
     (drop_bit 24 hash XOR drop_bit 16 hash XOR drop_bit 8 hash XOR hash) AND 0xff"

definition oid_hash :: "octet list \<Rightarrow> 32 word" where
  "oid_hash octets = hash_fold (hash_octets octets)"

text \<open>
  The reference definition, in the words of the specification: start from
  \<open>length - 1\<close>, add \<open>byte * 33\<close> for every byte with all arithmetic modulo
  \<open>2 ^ 32\<close>, XOR the four byte lanes of the accumulator and keep the low 8 bits.
  It works on integers, with every wrap-around written out.
\<close>

definition spec_hash_seed :: "int list \<Rightarrow> int" where
  "spec_hash_seed bs =
     foldl (\<lambda>seed b. (seed + b * 33) mod 2 ^ 32) ((int (length bs) - 1) mod 2 ^ 32) bs"

definition spec_hash :: "int list \<Rightarrow> int" where
  "spec_hash bs =
     (let seed = spec_hash_seed bs
      in ((seed div 2 ^ 24) XOR (seed div 2 ^ 16) XOR (seed div 2 ^ 8) XOR seed) mod 2 ^ 8)"

subsection \<open>The registry tables\<close>

text \<open>
  Modelled from the spec: the generated file \<^verbatim>\<open>oid_registry_data.c\<close> and the
  enumeration \<^verbatim>\<open>enum OID\<close> of \<^verbatim>\<open>linux/oid_registry.h\<close> are not part of the
  source at hand. A symbol is its enumeration value, a natural number. An entry of the
  search index \<^verbatim>\<open>oid_search_table\<close> is a pair of a hash byte and a symbol.
\<close>

record oid_search_entry =
  hash :: octet
  oid :: nat

text \<open>
  Modelled from the spec: the tables of \<^verbatim>\<open>oid_registry_data.c\<close>, a parameter of
  every function that reads them. \<open>OID_NR\<close> stands for the enumerator
  \<^verbatim>\<open>OID__NR\<close>, the number of symbols and the not-found sentinel; the search index
  \<^verbatim>\<open>oid_search_table\<close> has one entry for each symbol; the offset index
  \<^verbatim>\<open>oid_index\<close> holds \<open>OID_NR + 1\<close> offsets into the blob
  \<^verbatim>\<open>oid_data\<close>, which holds the canonical bytes of all symbols one after the other.
\<close>

record oid_registry =
  OID_NR :: nat
  oid_search_table :: "oid_search_entry list"
  oid_index :: "nat list"
  oid_data :: "octet list"

text \<open>
  Reading a C array outside its bounds is undefined behaviour, and \<^verbatim>\<open>BUG_ON\<close> stops
  the kernel. Both are results of the model, so that a theorem which says a function
  returns a value also says that it did neither.
\<close>

datatype fault = OutOfBounds | BUG

definition read_at :: "'a list \<Rightarrow> nat \<Rightarrow> fault + 'a" where
  "read_at xs i = (if i < length xs then Inr (xs ! i) else Inl OutOfBounds)"

text \<open>
  \<^verbatim>\<open>len = oid_index[oid + 1] - oid_index[oid]\<close>: the difference of two offsets is
  taken in \<^verbatim>\<open>int\<close> and converted to \<^verbatim>\<open>size_t\<close>, so a negative difference
  becomes a huge length.
\<close>

definition size_t_diff :: "nat \<Rightarrow> nat \<Rightarrow> nat" where
  "size_t_diff hi lo = nat ((int hi - int lo) mod 2 ^ 64)"

subsection \<open>Looking up an OID\<close>

text \<open>
  One probe of the binary search ends in one of three ways: \<^verbatim>\<open>k = j\<close>,
  \<^verbatim>\<open>i = j + 1\<close>, or \<^verbatim>\<open>return oid\<close>.
\<close>

datatype probe = GoLeft | GoRight | Match nat

text \<open>
  The inner loop of lines 74 to 86, which compares from the tail:
  \<^verbatim>\<open>while (len > 0) { a = oid_data[oid_index[oid] + --len]; b = octets[len]; ... }\<close>
  followed by \<^verbatim>\<open>return oid\<close>.
\<close>

fun compare_reverse :: "oid_registry \<Rightarrow> nat \<Rightarrow> octet list \<Rightarrow> nat \<Rightarrow> fault + probe" where
  "compare_reverse T symb octets 0 = Inr (Match symb)"
| "compare_reverse T symb octets (Suc len) =
     (case read_at (oid_index T) symb of Inl f \<Rightarrow> Inl f | Inr lo \<Rightarrow>
      case read_at (oid_data T) (lo + len) of Inl f \<Rightarrow> Inl f | Inr a \<Rightarrow>
      case read_at octets len of Inl f \<Rightarrow> Inl f | Inr b \<Rightarrow>
        if a > b then Inr GoLeft
        else if a < b then Inr GoRight
        else compare_reverse T symb octets len)"

text \<open>The body of the outer loop at index \<open>j\<close>, lines 50 to 86.\<close>

definition probe_entry :: "oid_registry \<Rightarrow> octet list \<Rightarrow> 32 word \<Rightarrow> nat \<Rightarrow> fault + probe" where
  "probe_entry T octets h j =
     (case read_at (oid_search_table T) j of Inl f \<Rightarrow> Inl f | Inr e \<Rightarrow>
        let xhash = hash e in
        if ucast xhash > h then Inr GoLeft
        else if ucast xhash < h then Inr GoRight
        else
          let symb = oid e in
          case read_at (oid_index T) (symb + 1) of Inl f \<Rightarrow> Inl f | Inr hi \<Rightarrow>
          case read_at (oid_index T) symb of Inl f \<Rightarrow> Inl f | Inr lo \<Rightarrow>
            let len = size_t_diff hi lo in
            if len > length octets then Inr GoLeft
            else if len < length octets then Inr GoRight
            else compare_reverse T symb octets len)"

text \<open>
  The binary search of lines 45 to 91: \<^verbatim>\<open>while (i < k) { j = (i + k) / 2; ... }\<close>
  and \<^verbatim>\<open>return OID__NR\<close> when the range is empty.
\<close>

function look_up_loop :: "oid_registry \<Rightarrow> octet list \<Rightarrow> 32 word \<Rightarrow> nat \<Rightarrow> nat \<Rightarrow> fault + nat" where
  "look_up_loop T octets h i k =
     (if i < k then
        (let j = (i + k) div 2 in
         case probe_entry T octets h j of
           Inl f \<Rightarrow> Inl f
         | Inr GoLeft \<Rightarrow> look_up_loop T octets h i j
         | Inr GoRight \<Rightarrow> look_up_loop T octets h (j + 1) k
         | Inr (Match symb) \<Rightarrow> Inr symb)
      else Inr (OID_NR T))"
  by pat_completeness auto
termination
  by (relation "measure (\<lambda>(T, octets, h, i, k). k - i)") auto

declare look_up_loop.simps [simp del]

definition look_up_OID :: "oid_registry \<Rightarrow> octet list \<Rightarrow> fault + nat" where
  "look_up_OID T octets = look_up_loop T octets (oid_hash octets) 0 (OID_NR T)"

subsection \<open>The contract of the tables\<close>

text \<open>
  The canonical bytes of symbol \<open>s\<close>: the half-open range of the blob between
  offset \<open>s\<close> and offset \<open>s + 1\<close>.
\<close>

definition canonical_bytes :: "oid_registry \<Rightarrow> nat \<Rightarrow> octet list" where
  "canonical_bytes T s =
     take (oid_index T ! Suc s - oid_index T ! s) (drop (oid_index T ! s) (oid_data T))"

text \<open>
  The shape of the tables: the search index has \<open>OID_NR\<close> entries, each naming a
  symbol; the offset index has \<open>OID_NR + 1\<close> ascending offsets that end inside the
  blob.
\<close>

definition registry_bounds :: "oid_registry \<Rightarrow> bool" where
  "registry_bounds T \<longleftrightarrow>
     OID_NR T < 2 ^ 31 \<and>
     length (oid_search_table T) = OID_NR T \<and>
     length (oid_index T) = OID_NR T + 1 \<and>
     sorted (oid_index T) \<and>
     oid_index T ! OID_NR T \<le> length (oid_data T) \<and>
     length (oid_data T) < 2 ^ 64 \<and>
     (\<forall>e \<in> set (oid_search_table T). oid e < OID_NR T)"

text \<open>
  The search index is an index of the blob: every symbol has an entry, the hash byte of
  an entry is the hash of the canonical bytes of its symbol, and no two symbols share
  their canonical bytes.
\<close>

definition registry_index :: "oid_registry \<Rightarrow> bool" where
  "registry_index T \<longleftrightarrow>
     (\<forall>e \<in> set (oid_search_table T). hash e = ucast (oid_hash (canonical_bytes T (oid e)))) \<and>
     (\<forall>s \<in> set [0..<OID_NR T]. s \<in> oid ` set (oid_search_table T)) \<and>
     distinct (map (canonical_bytes T) [0..<OID_NR T])"

text \<open>
  The triple sort order of the search index: ascending hash byte, then ascending length
  of the canonical bytes, then ascending canonical bytes read from the last byte
  backwards. Pairs and lists are ordered lexicographically.
\<close>

definition search_key :: "oid_registry \<Rightarrow> oid_search_entry \<Rightarrow> octet \<times> nat \<times> octet list" where
  "search_key T e =
     (hash e, length (canonical_bytes T (oid e)), rev (canonical_bytes T (oid e)))"

definition search_sorted :: "oid_registry \<Rightarrow> bool" where
  "search_sorted T \<longleftrightarrow> sorted (map (search_key T) (oid_search_table T))"

text \<open>
  The key of the looked-up octets, built like the key of an entry, and the way one
  probe steers the search: left when the entry's key is greater, right when it is
  smaller, and a match when the keys are equal.
\<close>

definition data_key :: "octet list \<Rightarrow> octet \<times> nat \<times> octet list" where
  "data_key octets = (ucast (oid_hash octets), length octets, rev octets)"

definition steer :: "('a::linorder) \<Rightarrow> 'a \<Rightarrow> nat \<Rightarrow> probe" where
  "steer a b s = (if a > b then GoLeft else if a < b then GoRight else Match s)"

subsection \<open>Formatted output\<close>

text \<open>The terminator of a C string.\<close>

definition NUL :: char where
  "NUL = CHR 0x00"

text \<open>
  Modelled from the spec: the conversions \<^verbatim>\<open>%u\<close> and \<^verbatim>\<open>%lu\<close> of the kernel's
  \<^verbatim>\<open>snprintf\<close> (lib/vsprintf.c, not part of the source at hand) print a number as
  dotted-decimal text needs it: in decimal, most significant digit first, without
  padding.
\<close>

definition digit_char :: "nat \<Rightarrow> char" where
  "digit_char d = ''0123456789'' ! d"

fun dec :: "nat \<Rightarrow> string" where
  "dec n = (if n < 10 then [digit_char n] else dec (n div 10) @ [digit_char (n mod 10)])"

declare dec.simps [simp del]

text \<open>
  Modelled from the spec: \<^verbatim>\<open>snprintf\<close> (lib/vsprintf.c) is not part of the source at
  hand. The specification has each segment written into the rest of the buffer, whose
  capacity includes the terminator, a text that does not fit cut off at the capacity,
  and the number of characters that were or would be written returned. So
  \<open>snprintf buffer txt\<close> on a buffer of \<open>length buffer\<close> characters writes
  nothing when the buffer is empty, and otherwise the first \<open>length buffer - 1\<close>
  characters of the text followed by the terminator; the count it returns is the
  length of the whole text.
\<close>

definition snprintf :: "char list \<Rightarrow> string \<Rightarrow> char list \<times> nat" where
  "snprintf buffer txt =
     (if buffer = [] then buffer
      else take (length buffer - 1) txt @ [NUL] @
           drop (min (length txt) (length buffer - 1) + 1) buffer,
      length txt)"

text \<open>The C string a buffer holds: its characters before the first terminator.\<close>

definition cstring :: "char list \<Rightarrow> string" where
  "cstring buffer = takeWhile (\<lambda>c. c \<noteq> NUL) buffer"

subsection \<open>Printing an OID\<close>

text \<open>
  \<^verbatim>\<open>sprint_oid\<close> returns the number of characters or one of two negative error
  codes. The model returns the result together with the final content of the caller's
  buffer. While the function runs, \<open>written\<close> is the part of the caller's buffer
  before the pointer \<^verbatim>\<open>buffer\<close> and \<open>buffer\<close> the part from the pointer on,
  \<^verbatim>\<open>bufsize\<close> characters long: \<^verbatim>\<open>buffer += count; bufsize -= count\<close> moves
  \<open>count\<close> characters from the second to the first.
\<close>

datatype error = EBADMSG | ENOBUFS

type_synonym sprint_result = "(error + nat) \<times> char list"

text \<open>
  The \<^verbatim>\<open>do ... while (n & 0x80)\<close> loop of lines 176 to 182. \<open>None\<close> is the
  \<^verbatim>\<open>goto bad\<close> of line 178; otherwise the number and the octets not yet read.
\<close>

fun varint_more :: "octet list \<Rightarrow> 64 word \<Rightarrow> (64 word \<times> octet list) option" where
  "varint_more [] num = None"
| "varint_more (n # v) num =
     (let num' = push_bit 7 num OR ucast (n AND 0x7f)
      in if n AND 0x80 \<noteq> 0 then varint_more v num' else Some (num', v))"

text \<open>Lines 170 to 183: one arc, whose first octet \<open>n\<close> has been read.\<close>

definition read_arc :: "octet \<Rightarrow> octet list \<Rightarrow> (64 word \<times> octet list) option" where
  "read_arc n v =
     (if n AND 0x80 = 0 then Some (ucast n, v)
      else varint_more v (ucast (n AND 0x7f)))"

text \<open>The label \<^verbatim>\<open>bad\<close>, lines 193 to 195.\<close>

definition bad :: "char list \<Rightarrow> char list \<Rightarrow> sprint_result" where
  "bad written buffer = (Inl EBADMSG, written @ fst (snprintf buffer ''(bad)''))"

text \<open>The \<^verbatim>\<open>while (v < end)\<close> loop of lines 169 to 189 and \<^verbatim>\<open>return ret\<close>.\<close>

function arcs_loop :: "octet list \<Rightarrow> char list \<Rightarrow> char list \<Rightarrow> nat \<Rightarrow> sprint_result" where
  "arcs_loop [] written buffer ret = (Inr ret, written @ buffer)"
| "arcs_loop (n # v) written buffer ret =
     (case read_arc n v of
        None \<Rightarrow> bad written buffer
      | Some (num, v') \<Rightarrow>
          (case snprintf buffer (''.'' @ dec (unat num)) of
             (buffer', count) \<Rightarrow>
               if count \<ge> length buffer then (Inl ENOBUFS, written @ buffer')
               else arcs_loop v' (written @ take count buffer') (drop count buffer')
                      (ret + count)))"
  by pat_completeness auto
termination
proof (relation "measure (\<lambda>(v, written, buffer, ret). length v)")
  show "wf (measure (\<lambda>(v, written, buffer, ret). length v))"
    by simp
next
  fix n :: octet and v :: "octet list" and written buffer :: "char list" and ret :: nat
    and x2 :: "64 word \<times> octet list" and num :: "64 word" and v' :: "octet list"
    and x y
  assume r: "read_arc n v = Some x2" and x2: "(num, v') = x2"
  have more: "varint_more u a = Some (b, u') \<Longrightarrow> length u' \<le> length u" for u a b u'
  proof (induction u arbitrary: a)
    case Nil
    then show ?case by simp
  next
    case (Cons m u)
    then show ?case by (fastforce simp add: Let_def split: if_splits)
  qed
  have "length v' \<le> length v"
    using r x2 more [of v _ num v'] by (auto simp add: read_arc_def split: if_splits)
  then show "((v', written @ take y x, drop y x, ret + y), n # v, written, buffer, ret)
      \<in> measure (\<lambda>(v, written, buffer, ret). length v)"
    by simp
qed

declare arcs_loop.simps [simp del]

text \<open>Lines 159 to 167, followed by the loop.\<close>

definition sprint_oid :: "octet list \<Rightarrow> char list \<Rightarrow> sprint_result" where
  "sprint_oid data buffer =
     (case data of
        [] \<Rightarrow> bad [] buffer
      | n # v \<Rightarrow>
          (case snprintf buffer (dec (unat n div 40) @ ''.'' @ dec (unat n mod 40)) of
             (buffer', count) \<Rightarrow>
               if count \<ge> length buffer then (Inl ENOBUFS, buffer')
               else arcs_loop v (take count buffer') (drop count buffer') count))"

text \<open>
  \<^verbatim>\<open>sprint_OID\<close>, lines 208 to 219: the octets passed on are the
  \<open>oid_index[oid + 1] - oid_index[oid]\<close> octets of the blob from offset
  \<open>oid_index[oid]\<close>; a range that leaves the blob is an out-of-bounds read.
\<close>

definition sprint_OID :: "oid_registry \<Rightarrow> nat \<Rightarrow> char list \<Rightarrow> fault + sprint_result" where
  "sprint_OID T symb buffer =
     (if symb \<ge> OID_NR T then Inl BUG
      else
        case read_at (oid_index T) symb of Inl f \<Rightarrow> Inl f | Inr lo \<Rightarrow>
        case read_at (oid_index T) (symb + 1) of Inl f \<Rightarrow> Inl f | Inr hi \<Rightarrow>
          let datasize = size_t_diff hi lo in
          if lo + datasize > length (oid_data T) then Inl OutOfBounds
          else
            let ret = sprint_oid (take datasize (drop lo (oid_data T))) buffer in
            if fst ret = Inl EBADMSG then Inl BUG else Inr ret)"

subsection \<open>The digest of a signature algorithm\<close>

text \<open>
  Modelled from the spec: the enumerators of \<^verbatim>\<open>enum OID\<close> that
  \<^verbatim>\<open>lookup_oid_digest_info\<close> names are declared in \<^verbatim>\<open>linux/oid_registry.h\<close>,
  which is not part of the source at hand; their values are a parameter.
\<close>

record oid_names =
  OID_md4WithRSAEncryption :: nat
  OID_sha1WithRSAEncryption :: nat
  OID_id_ecdsa_with_sha1 :: nat
  OID_sha224WithRSAEncryption :: nat
  OID_sha256WithRSAEncryption :: nat
  OID_id_ecdsa_with_sha256 :: nat
  OID_sha384WithRSAEncryption :: nat
  OID_id_ecdsa_with_sha384 :: nat
  OID_sha512WithRSAEncryption :: nat
  OID_id_ecdsa_with_sha512 :: nat
  OID_md4 :: nat
  OID_sha1 :: nat
  OID_sha224 :: nat
  OID_sha256 :: nat
  OID_sha384 :: nat
  OID_sha512 :: nat

text \<open>
  The three output parameters. \<open>None\<close> is a null pointer; \<open>Some x\<close> is a
  pointer to a variable of the caller that holds \<open>x\<close>.
\<close>

record digest_out =
  digest_algo :: "string option"
  digest_len :: "32 word option"
  digest_oid :: "nat option"

text \<open>\<^verbatim>\<open>if (p) *p = x;\<close>\<close>

definition store :: "'a option \<Rightarrow> 'a \<Rightarrow> 'a option" where
  "store p x = (case p of None \<Rightarrow> None | Some old \<Rightarrow> Some x)"

definition set_digest :: "digest_out \<Rightarrow> string \<Rightarrow> nat \<Rightarrow> 32 word \<Rightarrow> digest_out" where
  "set_digest out algo d len =
     out\<lparr>digest_algo := store (digest_algo out) algo,
         digest_oid := store (digest_oid out) d,
         digest_len := store (digest_len out) len\<rparr>"

text \<open>
  Lines 95 to 137. The \<^verbatim>\<open>switch\<close> is a chain of comparisons in the order of its
  \<^verbatim>\<open>case\<close> labels; the result is \<^verbatim>\<open>ret\<close> and the output parameters.
\<close>

definition lookup_oid_digest_info :: "oid_names \<Rightarrow> nat \<Rightarrow> digest_out \<Rightarrow> int \<times> digest_out" where
  "lookup_oid_digest_info E symb out =
     (if symb = OID_md4WithRSAEncryption E then
        (0, set_digest out ''md4'' (OID_md4 E) 16)
      else if symb = OID_sha1WithRSAEncryption E \<or> symb = OID_id_ecdsa_with_sha1 E then
        (0, set_digest out ''sha1'' (OID_sha1 E) 20)
      else if symb = OID_sha224WithRSAEncryption E then
        (0, set_digest out ''sha224'' (OID_sha224 E) 28)
      else if symb = OID_sha256WithRSAEncryption E \<or> symb = OID_id_ecdsa_with_sha256 E then
        (0, set_digest out ''sha256'' (OID_sha256 E) 32)
      else if symb = OID_sha384WithRSAEncryption E \<or> symb = OID_id_ecdsa_with_sha384 E then
        (0, set_digest out ''sha384'' (OID_sha384 E) 48)
      else if symb = OID_sha512WithRSAEncryption E \<or> symb = OID_id_ecdsa_with_sha512 E then
        (0, set_digest out ''sha512'' (OID_sha512 E) 64)
      else (- 1, out))"

text \<open>
  The mapping of the specification: each of the ten signature-algorithm symbols with the
  name of its digest, the symbol of the digest algorithm and the length of the digest
  in bytes.
\<close>

definition digest_table :: "oid_names \<Rightarrow> (nat \<times> string \<times> nat \<times> 32 word) list" where
  "digest_table E =
     [(OID_md4WithRSAEncryption E, ''md4'', OID_md4 E, 16),
      (OID_sha1WithRSAEncryption E, ''sha1'', OID_sha1 E, 20),
      (OID_id_ecdsa_with_sha1 E, ''sha1'', OID_sha1 E, 20),
      (OID_sha224WithRSAEncryption E, ''sha224'', OID_sha224 E, 28),
      (OID_sha256WithRSAEncryption E, ''sha256'', OID_sha256 E, 32),
      (OID_id_ecdsa_with_sha256 E, ''sha256'', OID_sha256 E, 32),
      (OID_sha384WithRSAEncryption E, ''sha384'', OID_sha384 E, 48),
      (OID_id_ecdsa_with_sha384 E, ''sha384'', OID_sha384 E, 48),
      (OID_sha512WithRSAEncryption E, ''sha512'', OID_sha512 E, 64),
      (OID_id_ecdsa_with_sha512 E, ''sha512'', OID_sha512 E, 64)]"

definition signature_symbols :: "oid_names \<Rightarrow> nat list" where
  "signature_symbols E = map fst (digest_table E)"

definition digest_symbols :: "oid_names \<Rightarrow> nat list" where
  "digest_symbols E =
     [OID_md4 E, OID_sha1 E, OID_sha224 E, OID_sha256 E, OID_sha384 E, OID_sha512 E]"

text \<open>The enumerators of an enumeration without explicit values are pairwise different.\<close>

definition enumerators_distinct :: "oid_names \<Rightarrow> bool" where
  "enumerators_distinct E \<longleftrightarrow> distinct (signature_symbols E @ digest_symbols E)"

subsection \<open>The text of an OID, by the specification\<close>

text \<open>
  The octets after the first are a sequence of base-128 numbers: an octet with the bit
  \<open>0x80\<close> set is continued by the next octet, an octet without it ends a number.
  \<open>oid_groups [] v\<close> cuts \<open>v\<close> into the groups of octets of its complete
  numbers; octets after the last complete number, all with the bit set, are left over,
  and then \<open>v\<close> is truncated: it ends while a continuation is expected.
\<close>

fun oid_groups :: "octet list \<Rightarrow> octet list \<Rightarrow> octet list list" where
  "oid_groups acc [] = []"
| "oid_groups acc (b # bs) =
     (if b AND 0x80 \<noteq> 0 then oid_groups (acc @ [b]) bs
      else (acc @ [b]) # oid_groups [] bs)"

definition truncated :: "octet list \<Rightarrow> bool" where
  "truncated v \<longleftrightarrow> v \<noteq> [] \<and> last v AND 0x80 \<noteq> 0"

text \<open>
  An encoding is structurally valid when it is not empty and the octets after the first
  are not truncated. The first octet is not part of a base-128 number.
\<close>

definition oid_wellformed :: "octet list \<Rightarrow> bool" where
  "oid_wellformed data \<longleftrightarrow> data \<noteq> [] \<and> \<not> truncated (tl data)"

text \<open>
  The value of a group: big-endian, every octet contributes its low 7 bits. This is the
  number itself, however large.
\<close>

definition varint_value :: "octet list \<Rightarrow> nat" where
  "varint_value g = foldl (\<lambda>a b. a * 128 + unat b mod 128) 0 g"

text \<open>
  The arcs of an encoding: the first octet \<open>n\<close> gives \<open>n / 40\<close> and
  \<open>n % 40\<close>, every later group gives its value.
\<close>

definition oid_arcs :: "octet list \<Rightarrow> nat list" where
  "oid_arcs data =
     (case data of
        [] \<Rightarrow> []
      | n # v \<Rightarrow> unat n div 40 # unat n mod 40 # map varint_value (oid_groups [] v))"

text \<open>Dotted-decimal text: the arcs in order, in decimal, with a dot between two arcs.\<close>

fun dotted :: "nat list \<Rightarrow> string" where
  "dotted [] = []"
| "dotted (a # as) = dec a @ concat (map (\<lambda>c. ''.'' @ dec c) as)"

text \<open>
  The text \<open>sprint_oid\<close> has to print: the arcs as the code holds them, each of the
  later arcs in an \<^verbatim>\<open>unsigned long\<close>, that is modulo \<open>2 ^ 64\<close>.
\<close>

definition oid_text :: "octet list \<Rightarrow> string" where
  "oid_text data = dotted (map (\<lambda>a. a mod 2 ^ 64) (oid_arcs data))"

subsection \<open>Printing as a sequence of segments\<close>

text \<open>
  For the proofs, \<open>sprint_oid\<close> is split in two: the segments it prints, one call
  of \<open>snprintf\<close> each, and the loop that writes them. \<open>emit\<close> writes the
  segments one after the other and then either returns or, when the input was truncated,
  goes to \<^verbatim>\<open>bad\<close>.
\<close>

definition first_text :: "octet \<Rightarrow> string" where
  "first_text n = dec (unat n div 40) @ ''.'' @ dec (unat n mod 40)"

definition arc_text :: "octet list \<Rightarrow> string" where
  "arc_text g = ''.'' @ dec (varint_value g mod 2 ^ 64)"

fun emit :: "string list \<Rightarrow> bool \<Rightarrow> char list \<Rightarrow> char list \<Rightarrow> nat \<Rightarrow> sprint_result" where
  "emit [] trunc written buffer ret =
     (if trunc then bad written buffer else (Inr ret, written @ buffer))"
| "emit (s # ss) trunc written buffer ret =
     (case snprintf buffer s of
        (buffer', count) \<Rightarrow>
          if count \<ge> length buffer then (Inl ENOBUFS, written @ buffer')
          else emit ss trunc (written @ take count buffer') (drop count buffer')
                 (ret + count))"

definition segments :: "octet list \<Rightarrow> string list" where
  "segments data =
     (case data of
        [] \<Rightarrow> []
      | n # v \<Rightarrow> first_text n # map arc_text (oid_groups [] v))"

subsection \<open>Example tables\<close>

text \<open>
  A registry of four symbols: ecdsa-with-SHA1 (1.2.840.10045.4.1), countryName
  (2.5.4.6), postalCode (2.5.4.17) and cRLDistributionPoints (2.5.29.31). The first two
  share the hash byte \<open>0x4d\<close> and differ in length; the last two share the hash
  byte \<open>0xa1\<close> and the length, and differ in their last octet.
\<close>

definition example_registry :: oid_registry where
  "example_registry =
     \<lparr>OID_NR = 4,
      oid_search_table =
        [\<lparr>hash = 0x4d, oid = 1\<rparr>, \<lparr>hash = 0x4d, oid = 0\<rparr>,
         \<lparr>hash = 0xa1, oid = 2\<rparr>, \<lparr>hash = 0xa1, oid = 3\<rparr>],
      oid_index = [0, 7, 10, 13, 16],
      oid_data =
        [0x2a, 0x86, 0x48, 0xce, 0x3d, 0x04, 0x01,
         0x55, 0x04, 0x06,
         0x55, 0x04, 0x11,
         0x55, 0x1d, 0x1f]\<rparr>"

text \<open>Values for the sixteen enumerators, pairwise different.\<close>

definition example_names :: oid_names where
  "example_names =
     \<lparr>OID_md4WithRSAEncryption = 11, OID_sha1WithRSAEncryption = 12,
      OID_id_ecdsa_with_sha1 = 5, OID_sha224WithRSAEncryption = 16,
      OID_sha256WithRSAEncryption = 13, OID_id_ecdsa_with_sha256 = 7,
      OID_sha384WithRSAEncryption = 14, OID_id_ecdsa_with_sha384 = 8,
      OID_sha512WithRSAEncryption = 15, OID_id_ecdsa_with_sha512 = 9,
      OID_md4 = 20, OID_sha1 = 30, OID_sha224 = 43, OID_sha256 = 40,
      OID_sha384 = 41, OID_sha512 = 42\<rparr>"

subsection \<open>The hash agrees with its reference definition\<close>

lemma uint_hash_step:
  "uint ((h::32 word) + ucast (b::octet) * 33) = (uint h + uint b * 33) mod 2 ^ 32"
  by (simp add: uint_word_ariths uint_up_ucast is_up mod_simps)

lemma hash_octets_loop:
  "uint (foldl (\<lambda>hash b. hash + ucast b * 33) (h::32 word) (octets :: octet list)) =
     foldl (\<lambda>seed b. (seed + b * 33) mod 2 ^ 32) (uint h) (map uint octets)"
proof (induction octets arbitrary: h)
  case Nil
  show ?case by simp
next
  case (Cons b bs)
  show ?case by (simp add: Cons.IH uint_hash_step)
qed

lemma uint_seed: "uint (of_nat n - 1 :: 32 word) = (int n - 1) mod 2 ^ 32"
proof -
  have "uint (of_nat n - 1 :: 32 word) = (uint (of_nat n :: 32 word) - 1) mod 2 ^ 32"
    by (simp add: uint_word_ariths)
  also have "uint (of_nat n :: 32 word) = int (n mod 2 ^ 32)"
    by (simp only: uint_nat unat_of_nat len_of_numeral_defs) simp
  finally show ?thesis by (simp add: mod_simps zmod_int)
qed

lemma uint_hash_octets: "uint (hash_octets octets) = spec_hash_seed (map uint octets)"
  by (simp add: hash_octets_def spec_hash_seed_def hash_octets_loop uint_seed)

lemma uint_drop_bit32: "uint (drop_bit n (h :: 32 word)) = uint h div 2 ^ n"
proof -
  have "uint (drop_bit n h) = int (drop_bit n (unat h))"
    by (simp only: uint_nat unat_drop_bit_eq)
  also have "\<dots> = int (unat h) div 2 ^ n"
    by (simp add: drop_bit_eq_div zdiv_int)
  finally show ?thesis by (simp only: uint_nat)
qed

lemma uint_hash_fold:
  "uint (hash_fold h) =
     ((uint h div 2 ^ 24) XOR (uint h div 2 ^ 16) XOR (uint h div 2 ^ 8) XOR uint h) mod 2 ^ 8"
proof -
  have m: "(0xff :: 32 word) = mask 8" by (simp add: mask_eq_exp_minus_1)
  have "uint (hash_fold h) =
          uint (drop_bit 24 h XOR drop_bit 16 h XOR drop_bit 8 h XOR h) AND mask 8"
    unfolding hash_fold_def m by (simp only: uint_and uint_mask_eq) simp
  also have "\<dots> = uint (drop_bit 24 h XOR drop_bit 16 h XOR drop_bit 8 h XOR h) mod 2 ^ 8"
    by (simp only: take_bit_eq_mod flip: take_bit_eq_mask)
  finally show ?thesis
    by (simp only: uint_xor uint_drop_bit32)
qed

text \<open>
  C3: for every input byte sequence, the hash computed by \<open>look_up_OID\<close> (the
  32-bit accumulator seeded with \<open>datasize - 1\<close>, increased by \<open>octet * 33\<close>
  for every octet, XOR-folded over its four byte lanes and masked with \<open>0xff\<close>),
  read as an unsigned number, is the value of the reference definition \<open>spec_hash\<close>
  on the byte values of the input.
\<close>

theorem oid_hash_reference: "uint (oid_hash octets) = spec_hash (map uint octets)"
  by (simp add: oid_hash_def spec_hash_def Let_def uint_hash_fold uint_hash_octets)

subsection \<open>The binary search\<close>

lemma read_at_in: "i < length xs \<Longrightarrow> read_at xs i = Inr (xs ! i)"
  by (simp add: read_at_def)

lemma rev_take_Suc: "n < length xs \<Longrightarrow> rev (take (Suc n) xs) = xs ! n # rev (take n xs)"
  by (simp add: take_Suc_conv_app_nth)

lemma steer_Cons:
  "steer (a # x) (b # y) s =
     (if a > b then GoLeft else if a < b then GoRight else steer x y s)"
proof -
  consider "a < b" | "b < a" | "a = b" by (rule linorder_cases)
  then show ?thesis
  proof cases
    case 1
    then have "\<not> b < a" "a \<noteq> b" "b \<noteq> a" by simp_all
    with 1 show ?thesis by (simp add: steer_def)
  next
    case 2
    then show ?thesis by (simp add: steer_def)
  next
    case 3
    then show ?thesis by (simp add: steer_def)
  qed
qed

lemma steer_Pair:
  "steer (a, x) (b, y) s =
     (if a > b then GoLeft else if a < b then GoRight else steer x y s)"
proof -
  consider "a < b" | "b < a" | "a = b" by (rule linorder_cases)
  then show ?thesis
  proof cases
    case 1
    then have "\<not> b < a" "a \<noteq> b" "b \<noteq> a" "a \<le> b" "\<not> b \<le> a" by simp_all
    with 1 show ?thesis by (simp add: steer_def)
  next
    case 2
    then have "\<not> a < b" "a \<noteq> b" "b \<noteq> a" "b \<le> a" "\<not> a \<le> b" by simp_all
    with 2 show ?thesis by (simp add: steer_def)
  next
    case 3
    then show ?thesis by (simp add: steer_def)
  qed
qed

lemma compare_reverse_steer:
  assumes "symb < length (oid_index T)"
    and "oid_index T ! symb + len \<le> length (oid_data T)"
    and "len \<le> length octets"
  shows "compare_reverse T symb octets len =
           Inr (steer (rev (take len (drop (oid_index T ! symb) (oid_data T))))
                      (rev (take len octets)) symb)"
  using assms(2,3)
proof (induction len)
  case 0
  show ?case by (simp add: steer_def)
next
  case (Suc len)
  let ?c = "drop (oid_index T ! symb) (oid_data T)"
  have l1: "len < length ?c" using Suc.prems by simp
  have l2: "len < length octets" using Suc.prems by simp
  have ih: "compare_reverse T symb octets len =
           Inr (steer (rev (take len ?c)) (rev (take len octets)) symb)"
    using Suc.IH Suc.prems by simp
  have nth: "?c ! len = oid_data T ! (oid_index T ! symb + len)"
    using Suc.prems by simp
  have r1: "read_at (oid_index T) symb = Inr (oid_index T ! symb)"
    using assms(1) by (rule read_at_in)
  have r2: "read_at (oid_data T) (oid_index T ! symb + len) = Inr (?c ! len)"
    using Suc.prems nth by (simp add: read_at_def)
  have r3: "read_at octets len = Inr (octets ! len)"
    using l2 by (rule read_at_in)
  show ?case
    by (simp only: compare_reverse.simps r1 r2 r3 sum.case rev_take_Suc [OF l1]
        rev_take_Suc [OF l2] ih steer_Cons if_distrib [of Inr] cong: if_cong)
qed

lemma oid_hash_byte: "oid_hash octets \<le> 0xff"
  unfolding oid_hash_def hash_fold_def by (rule word_and_le1)

lemma ucast_hash_less:
  assumes "h \<le> (0xff :: 32 word)"
  shows "(h < ucast (x :: octet)) = ((ucast h :: octet) < x)"
    and "(ucast x < h) = (x < (ucast h :: octet))"
proof -
  have a: "uint (ucast x :: 32 word) = uint x" by (simp add: uint_up_ucast is_up)
  have "uint h \<le> 255" using assms by (simp add: word_le_def)
  then have b: "uint (ucast h :: octet) = uint h"
    by (simp add: unsigned_ucast_eq take_bit_int_eq_self)
  show "(h < ucast x) = ((ucast h :: octet) < x)" by (simp only: word_less_def a b)
  show "(ucast x < h) = (x < (ucast h :: octet))" by (simp only: word_less_def a b)
qed


lemma index_mono:
  assumes "registry_bounds T" "s < OID_NR T"
  shows "oid_index T ! s \<le> oid_index T ! Suc s"
    and "oid_index T ! Suc s \<le> length (oid_data T)"
proof -
  from assms have len: "length (oid_index T) = OID_NR T + 1" and srt: "sorted (oid_index T)"
    and top: "oid_index T ! OID_NR T \<le> length (oid_data T)"
    by (simp_all add: registry_bounds_def)
  show "oid_index T ! s \<le> oid_index T ! Suc s"
    using srt len assms(2) by (simp add: sorted_nth_mono)
  have "oid_index T ! Suc s \<le> oid_index T ! OID_NR T"
    using srt len assms(2) by (simp add: sorted_nth_mono)
  with top show "oid_index T ! Suc s \<le> length (oid_data T)" by simp
qed

lemma length_canonical:
  assumes "registry_bounds T" "s < OID_NR T"
  shows "length (canonical_bytes T s) = oid_index T ! Suc s - oid_index T ! s"
  using index_mono [OF assms] by (simp add: canonical_bytes_def)

lemma size_t_diff_index:
  assumes "registry_bounds T" "s < OID_NR T"
  shows "size_t_diff (oid_index T ! Suc s) (oid_index T ! s) = length (canonical_bytes T s)"
proof -
  from assms(1) have "length (oid_data T) < 2 ^ 64" by (simp add: registry_bounds_def)
  with index_mono [OF assms]
  have a: "oid_index T ! s \<le> oid_index T ! Suc s" and b: "oid_index T ! Suc s < 2 ^ 64"
    by simp_all
  define d where "d = oid_index T ! Suc s - oid_index T ! s"
  have "int (oid_index T ! Suc s) - int (oid_index T ! s) = int d"
    using a by (simp add: d_def)
  moreover have "d < 2 ^ 64"
    using b by (simp add: d_def)
  then have "int d mod 2 ^ 64 = int d"
    by simp
  ultimately have "size_t_diff (oid_index T ! Suc s) (oid_index T ! s) = d"
    unfolding size_t_diff_def by simp
  then show ?thesis by (simp add: length_canonical [OF assms] d_def)
qed

lemma probe_entry_steer:
  assumes bounds: "registry_bounds T" and j: "j < OID_NR T"
  shows "probe_entry T octets (oid_hash octets) j =
           Inr (steer (search_key T (oid_search_table T ! j)) (data_key octets)
                      (oid (oid_search_table T ! j)))"
proof -
  define e where "e = oid_search_table T ! j"
  define s where "s = oid e"
  define c where "c = canonical_bytes T s"
  from bounds j have jl: "j < length (oid_search_table T)" by (simp add: registry_bounds_def)
  with bounds have s: "s < OID_NR T" by (simp add: registry_bounds_def s_def e_def)
  from bounds have len: "length (oid_index T) = OID_NR T + 1" by (simp add: registry_bounds_def)
  have r0: "read_at (oid_search_table T) j = Inr e" unfolding e_def using jl by (rule read_at_in)
  have r1: "read_at (oid_index T) (s + 1) = Inr (oid_index T ! Suc s)"
    using s len by (simp add: read_at_def)
  have r2: "read_at (oid_index T) s = Inr (oid_index T ! s)"
    using s len by (simp add: read_at_def)
  have sz: "size_t_diff (oid_index T ! Suc s) (oid_index T ! s) = length c"
    unfolding c_def by (rule size_t_diff_index [OF bounds s])
  note hl = ucast_hash_less [OF oid_hash_byte]
  have cr: "compare_reverse T s octets (length c) = Inr (steer (rev c) (rev octets) s)"
    if eq: "length c = length octets"
  proof -
    have "compare_reverse T s octets (length c) =
       Inr (steer (rev (take (length c) (drop (oid_index T ! s) (oid_data T))))
                      (rev (take (length c) octets)) s)"
    proof (rule compare_reverse_steer)
      show "s < length (oid_index T)" using s len by simp
      show "oid_index T ! s + length c \<le> length (oid_data T)"
        using index_mono [OF bounds s] by (simp add: c_def length_canonical [OF bounds s])
      show "length c \<le> length octets" using eq by simp
    qed
    moreover have "take (length c) (drop (oid_index T ! s) (oid_data T)) = c"
      by (simp only: c_def length_canonical [OF bounds s]) (simp only: canonical_bytes_def)
    ultimately show ?thesis using eq by simp
  qed
  have key: "search_key T e = (hash e, length c, rev c)"
    by (simp add: search_key_def c_def s_def)
  have p: "probe_entry T octets (oid_hash octets) j =
      (if ucast (oid_hash octets) < hash e then Inr GoLeft
       else if hash e < ucast (oid_hash octets) then Inr GoRight
       else if length octets < length c then Inr GoLeft
       else if length c < length octets then Inr GoRight
       else compare_reverse T s octets (length c))"
    unfolding probe_entry_def r0 sum.case Let_def
    by (simp only: s_def [symmetric] r1 r2 sum.case sz hl)
  have "probe_entry T octets (oid_hash octets) j =
      Inr (steer (search_key T e) (data_key octets) s)"
    unfolding p key data_key_def steer_Pair
    by (simp add: cr)
  then show ?thesis by (simp only: e_def s_def)
qed


lemma steer_cases:
  "(steer a b s = GoLeft) = (b < a)"
  "(steer a b s = GoRight) = (a < b)"
  "(steer a b s = Match r) = (a = b \<and> r = s)"
  by (auto simp add: steer_def)

lemma midpoint: "i < k \<Longrightarrow> i \<le> (i + k) div 2 \<and> (i + k) div 2 < (k::nat)"
  by arith

lemma look_up_loop_finds:
  assumes bounds: "registry_bounds T"
    and srt: "search_sorted T"
    and key: "search_key T (oid_search_table T ! p) = data_key octets"
    and uniq: "\<And>j. j < OID_NR T \<Longrightarrow> search_key T (oid_search_table T ! j) = data_key octets
                 \<Longrightarrow> oid (oid_search_table T ! j) = s"
    and range: "i \<le> p" "p < k" "k \<le> OID_NR T"
  shows "look_up_loop T octets (oid_hash octets) i k = Inr s"
  using range
proof (induction "k - i" arbitrary: i k rule: less_induct)
  case less
  define j where "j = (i + k) div 2"
  from less.prems have ik: "i < k" by simp
  then have ij: "i \<le> j" and jk: "j < k" using midpoint [of i k] by (simp_all add: j_def)
  with less.prems have jN: "j < OID_NR T" by simp
  from bounds have tl: "length (oid_search_table T) = OID_NR T" by (simp add: registry_bounds_def)
  define kj where "kj = search_key T (oid_search_table T ! j)"
  have pr: "probe_entry T octets (oid_hash octets) j =
      Inr (steer kj (data_key octets) (oid (oid_search_table T ! j)))"
    unfolding kj_def by (rule probe_entry_steer [OF bounds jN])
  have mono: "search_key T (oid_search_table T ! a) \<le> search_key T (oid_search_table T ! b)"
    if "a \<le> b" "b < OID_NR T" for a b
  proof -
    have "map (search_key T) (oid_search_table T) ! a \<le> map (search_key T) (oid_search_table T) ! b"
      using srt that tl unfolding search_sorted_def by (intro sorted_nth_mono) simp_all
    then show ?thesis using that tl by simp
  qed
  have unf: "look_up_loop T octets (oid_hash octets) i k =
      (case steer kj (data_key octets) (oid (oid_search_table T ! j)) of
         GoLeft \<Rightarrow> look_up_loop T octets (oid_hash octets) i j
       | GoRight \<Rightarrow> look_up_loop T octets (oid_hash octets) (j + 1) k
       | Match symb \<Rightarrow> Inr symb)"
    using ik by (subst look_up_loop.simps) (simp add: Let_def j_def [symmetric] pr)
  consider "data_key octets < kj" | "kj < data_key octets" | "kj = data_key octets"
    by (metis linorder_cases)
  then show ?case
  proof cases
    case 1
    then have st: "steer kj (data_key octets) (oid (oid_search_table T ! j)) = GoLeft"
      by (simp add: steer_cases)
    have "p < j"
    proof (rule ccontr)
      assume "\<not> p < j"
      then have "j \<le> p" by simp
      with less.prems have "kj \<le> data_key octets"
        unfolding kj_def key [symmetric] by (intro mono) simp_all
      with 1 show False by simp
    qed
    with less.prems ij jk have "look_up_loop T octets (oid_hash octets) i j = Inr s"
      by (intro less.hyps) simp_all
    then show ?thesis by (simp add: unf st)
  next
    case 2
    then have st: "steer kj (data_key octets) (oid (oid_search_table T ! j)) = GoRight"
      by (simp add: steer_cases)
    have "j < p"
    proof (rule ccontr)
      assume "\<not> j < p"
      then have "p \<le> j" by simp
      with jN have "data_key octets \<le> kj"
        unfolding kj_def key [symmetric] by (intro mono) simp_all
      with 2 show False by simp
    qed
    with less.prems ij jk have "look_up_loop T octets (oid_hash octets) (j + 1) k = Inr s"
      by (intro less.hyps) simp_all
    then show ?thesis by (simp add: unf st)
  next
    case 3
    then have st: "steer kj (data_key octets) (oid (oid_search_table T ! j)) =
        Match (oid (oid_search_table T ! j))"
      by (simp add: steer_cases)
    from 3 have eq: "oid (oid_search_table T ! j) = s"
      unfolding kj_def by (rule uniq [OF jN])
    have st': "steer kj (data_key octets) (oid (oid_search_table T ! j)) = Match s"
      using st eq by simp
    show ?thesis by (simp only: unf st' probe.case)
  qed
qed

lemma look_up_loop_sound:
  assumes bounds: "registry_bounds T" and range: "k \<le> OID_NR T"
  shows "\<exists>r. look_up_loop T octets (oid_hash octets) i k = Inr r \<and>
           (r = OID_NR T \<or> r < OID_NR T \<and> canonical_bytes T r = octets)"
  using range
proof (induction "k - i" arbitrary: i k rule: less_induct)
  case less
  show ?case
  proof (cases "i < k")
    case False
    then show ?thesis by (subst look_up_loop.simps) simp
  next
    case ik: True
    define j where "j = (i + k) div 2"
    from ik have ij: "i \<le> j" and jk: "j < k" using midpoint [of i k] by (simp_all add: j_def)
    with less.prems have jN: "j < OID_NR T" by simp
    from bounds jN have sN: "oid (oid_search_table T ! j) < OID_NR T"
      by (simp add: registry_bounds_def)
    define kj where "kj = search_key T (oid_search_table T ! j)"
    have pr: "probe_entry T octets (oid_hash octets) j =
        Inr (steer kj (data_key octets) (oid (oid_search_table T ! j)))"
      unfolding kj_def by (rule probe_entry_steer [OF bounds jN])
    have unf: "look_up_loop T octets (oid_hash octets) i k =
        (case steer kj (data_key octets) (oid (oid_search_table T ! j)) of
           GoLeft \<Rightarrow> look_up_loop T octets (oid_hash octets) i j
         | GoRight \<Rightarrow> look_up_loop T octets (oid_hash octets) (j + 1) k
         | Match symb \<Rightarrow> Inr symb)"
      using ik by (subst look_up_loop.simps) (simp add: Let_def j_def [symmetric] pr)
    have left: "\<exists>r. look_up_loop T octets (oid_hash octets) i j = Inr r \<and>
           (r = OID_NR T \<or> r < OID_NR T \<and> canonical_bytes T r = octets)"
      using ik ij jk jN by (intro less.hyps) simp_all
    have right: "\<exists>r. look_up_loop T octets (oid_hash octets) (j + 1) k = Inr r \<and>
           (r = OID_NR T \<or> r < OID_NR T \<and> canonical_bytes T r = octets)"
      using ik ij jk less.prems by (intro less.hyps) simp_all
    show ?thesis
    proof (cases "steer kj (data_key octets) (oid (oid_search_table T ! j))")
      case GoLeft
      with left show ?thesis by (simp add: unf)
    next
      case GoRight
      with right show ?thesis by (simp add: unf)
    next
      case (Match r)
      then have "kj = data_key octets" and r: "r = oid (oid_search_table T ! j)"
        by (simp_all add: steer_cases)
      then have "canonical_bytes T r = octets"
        by (simp add: kj_def search_key_def data_key_def)
      with sN r Match show ?thesis by (simp add: unf)
    qed
  qed
qed

lemma example_registry_bounds: "registry_bounds example_registry"
  by (simp add: registry_bounds_def example_registry_def)

lemma example_registry_index: "registry_index example_registry"
  by (simp add: registry_index_def example_registry_def canonical_bytes_def oid_hash_def
      hash_octets_def hash_fold_def upt_conv_Cons)

lemma example_registry_sorted: "search_sorted example_registry"
  by (simp add: search_sorted_def search_key_def example_registry_def canonical_bytes_def)

text \<open>
  C1: when the tables have their shape, the search index is an index of the blob and it
  is sorted by hash byte, then length, then reversed canonical bytes, looking up the
  canonical bytes of any symbol \<open>s\<close> below \<open>OID_NR\<close> returns \<open>s\<close>,
  without reading outside a table.
\<close>

theorem look_up_OID_roundtrip:
  assumes bounds: "registry_bounds T" and index: "registry_index T"
    and srt: "search_sorted T" and s: "s < OID_NR T"
  shows "look_up_OID T (canonical_bytes T s) = Inr s"
proof -
  from index s have "s \<in> oid ` set (oid_search_table T)"
    by (simp add: registry_index_def)
  then obtain p where p: "p < length (oid_search_table T)" and sp: "oid (oid_search_table T ! p) = s"
    by (auto simp add: in_set_conv_nth)
  from bounds have tl: "length (oid_search_table T) = OID_NR T"
    by (simp add: registry_bounds_def)
  from index p have "hash (oid_search_table T ! p) =
      ucast (oid_hash (canonical_bytes T (oid (oid_search_table T ! p))))"
    by (simp add: registry_index_def)
  then have key: "search_key T (oid_search_table T ! p) = data_key (canonical_bytes T s)"
    by (simp add: search_key_def data_key_def sp)
  from index have inj: "inj_on (canonical_bytes T) (set [0..<OID_NR T])"
    by (simp add: registry_index_def distinct_map)
  have uniq: "oid (oid_search_table T ! j) = s"
    if j: "j < OID_NR T"
      and kj: "search_key T (oid_search_table T ! j) = data_key (canonical_bytes T s)" for j
  proof -
    from bounds j tl have "oid (oid_search_table T ! j) < OID_NR T"
      by (simp add: registry_bounds_def)
    moreover from kj have "canonical_bytes T (oid (oid_search_table T ! j)) = canonical_bytes T s"
      by (simp add: search_key_def data_key_def)
    ultimately show ?thesis using inj s by (simp add: inj_on_def)
  qed
  have "look_up_loop T (canonical_bytes T s) (oid_hash (canonical_bytes T s)) 0 (OID_NR T) = Inr s"
    using bounds srt key uniq
  proof (rule look_up_loop_finds)
    show "0 \<le> p" by simp
    show "p < OID_NR T" using p tl by simp
    show "OID_NR T \<le> OID_NR T" by simp
  qed
  then show ?thesis by (simp add: look_up_OID_def)
qed

theorem look_up_OID_roundtrip_witness:
  "registry_bounds example_registry \<and> registry_index example_registry \<and>
   search_sorted example_registry \<and> 3 < OID_NR example_registry \<and>
   look_up_OID example_registry [0x55, 0x1d, 0x1f] = Inr 3"
proof -
  have s: "3 < OID_NR example_registry" by (simp add: example_registry_def)
  have c: "canonical_bytes example_registry 3 = [0x55, 0x1d, 0x1f]"
    by (simp add: canonical_bytes_def example_registry_def)
  from look_up_OID_roundtrip [OF example_registry_bounds example_registry_index
      example_registry_sorted s]
  show ?thesis
    by (simp add: example_registry_bounds example_registry_index example_registry_sorted s c)
qed

text \<open>
  C2: when the tables have their shape, looking up any octets (the empty sequence
  included) that are not the canonical bytes of a symbol returns the not-found sentinel
  \<open>OID_NR\<close>, and no table is read outside its bounds. The sort order of the search
  index is not needed for this: a symbol is only returned after its canonical bytes were
  compared with the input, octet by octet.
\<close>

theorem look_up_OID_rejects:
  assumes bounds: "registry_bounds T"
    and miss: "\<forall>s<OID_NR T. canonical_bytes T s \<noteq> octets"
  shows "look_up_OID T octets = Inr (OID_NR T)"
proof -
  from look_up_loop_sound [OF bounds order_refl, of octets 0]
  obtain r where r: "look_up_loop T octets (oid_hash octets) 0 (OID_NR T) = Inr r"
    and c: "r = OID_NR T \<or> r < OID_NR T \<and> canonical_bytes T r = octets"
    by blast
  from c miss have "r = OID_NR T" by blast
  with r show ?thesis by (simp add: look_up_OID_def)
qed

theorem look_up_OID_rejects_witness:
  "registry_bounds example_registry \<and>
   look_up_OID example_registry [0x55, 0x04, 0x03] = Inr 4 \<and>
   look_up_OID example_registry [] = Inr 4"
proof -
  have c: "canonical_bytes example_registry s \<noteq> [0x55, 0x04, 0x03] \<and>
      canonical_bytes example_registry s \<noteq> []"
    if "s < 4" for s
  proof -
    from that consider "s = 0" | "s = 1" | "s = 2" | "s = 3" by arith
    then show ?thesis
      by cases (simp_all add: canonical_bytes_def example_registry_def)
  qed
  have n: "OID_NR example_registry = 4" by (simp add: example_registry_def)
  have "look_up_OID example_registry [0x55, 0x04, 0x03] = Inr (OID_NR example_registry)"
    by (rule look_up_OID_rejects [OF example_registry_bounds]) (simp add: n c)
  moreover have "look_up_OID example_registry [] = Inr (OID_NR example_registry)"
    by (rule look_up_OID_rejects [OF example_registry_bounds]) (simp add: n c)
  ultimately show ?thesis by (simp add: n example_registry_bounds)
qed

subsection \<open>The digest table\<close>

lemma lookup_as_table:
  "lookup_oid_digest_info E symb out =
     (case map_of (digest_table E) symb of
        None \<Rightarrow> (- 1, out)
      | Some (algo, d, len) \<Rightarrow> (0, set_digest out algo d len))"
  by (simp add: lookup_oid_digest_info_def digest_table_def)

lemma lookup_row:
  assumes "enumerators_distinct E" "(s, algo, d, len) \<in> set (digest_table E)"
  shows "lookup_oid_digest_info E s out = (0, set_digest out algo d len)"
proof -
  from assms(1) have "distinct (map fst (digest_table E))"
    by (simp only: enumerators_distinct_def signature_symbols_def distinct_append)
  from this assms(2) have "map_of (digest_table E) s = Some (algo, d, len)"
    by (rule map_of_is_SomeI)
  then show ?thesis by (simp add: lookup_as_table)
qed

lemma lookup_other:
  assumes "symb \<notin> set (signature_symbols E)"
  shows "lookup_oid_digest_info E symb out = (- 1, out)"
proof -
  from assms have "map_of (digest_table E) symb = None"
    by (simp only: signature_symbols_def set_map map_of_eq_None_iff not_False_eq_True)
  then show ?thesis by (simp add: lookup_as_table)
qed

lemma lookup_digest_symbol:
  assumes "enumerators_distinct E" "d \<in> set (digest_symbols E)"
  shows "lookup_oid_digest_info E d out = (- 1, out)"
proof -
  from assms(1) have "set (signature_symbols E) \<inter> set (digest_symbols E) = {}"
    by (simp only: enumerators_distinct_def distinct_append)
  with assms(2) have "d \<notin> set (signature_symbols E)" by blast
  then show ?thesis by (rule lookup_other)
qed

text \<open>
  C6: with pairwise different enumerators, \<open>lookup_oid_digest_info\<close> returns 0
  exactly for the ten signature-algorithm symbols. For each of them, with the digest
  name, digest symbol and digest length of its row of the table (16 for md4, 20 for
  sha1, 28 for sha224, 32 for sha256, 48 for sha384, 64 for sha512), every output
  parameter whose pointer is not null holds the value of the row afterwards, and a null
  pointer stays null. For every other symbol, the six digest symbols among them, it
  returns -1 and leaves the output parameters as they were.
\<close>

theorem lookup_oid_digest_info_complete:
  assumes "enumerators_distinct E"
  shows "(\<forall>(s, algo, d, len) \<in> set (digest_table E).
            fst (lookup_oid_digest_info E s out) = 0 \<and>
            digest_algo (snd (lookup_oid_digest_info E s out)) =
              (if digest_algo out = None then None else Some algo) \<and>
            digest_len (snd (lookup_oid_digest_info E s out)) =
              (if digest_len out = None then None else Some len) \<and>
            digest_oid (snd (lookup_oid_digest_info E s out)) =
              (if digest_oid out = None then None else Some d)) \<and>
         ((fst (lookup_oid_digest_info E symb out) = 0) = (symb \<in> set (signature_symbols E))) \<and>
         (symb \<notin> set (signature_symbols E) \<longrightarrow>
            lookup_oid_digest_info E symb out = (- 1, out)) \<and>
         (\<forall>d \<in> set (digest_symbols E). lookup_oid_digest_info E d out = (- 1, out)) \<and>
         digest_table E =
           [(OID_md4WithRSAEncryption E, ''md4'', OID_md4 E, 16),
            (OID_sha1WithRSAEncryption E, ''sha1'', OID_sha1 E, 20),
            (OID_id_ecdsa_with_sha1 E, ''sha1'', OID_sha1 E, 20),
            (OID_sha224WithRSAEncryption E, ''sha224'', OID_sha224 E, 28),
            (OID_sha256WithRSAEncryption E, ''sha256'', OID_sha256 E, 32),
            (OID_id_ecdsa_with_sha256 E, ''sha256'', OID_sha256 E, 32),
            (OID_sha384WithRSAEncryption E, ''sha384'', OID_sha384 E, 48),
            (OID_id_ecdsa_with_sha384 E, ''sha384'', OID_sha384 E, 48),
            (OID_sha512WithRSAEncryption E, ''sha512'', OID_sha512 E, 64),
            (OID_id_ecdsa_with_sha512 E, ''sha512'', OID_sha512 E, 64)] \<and>
         signature_symbols E =
           [OID_md4WithRSAEncryption E, OID_sha1WithRSAEncryption E, OID_id_ecdsa_with_sha1 E,
            OID_sha224WithRSAEncryption E, OID_sha256WithRSAEncryption E,
            OID_id_ecdsa_with_sha256 E, OID_sha384WithRSAEncryption E,
            OID_id_ecdsa_with_sha384 E, OID_sha512WithRSAEncryption E,
            OID_id_ecdsa_with_sha512 E] \<and>
         digest_symbols E =
           [OID_md4 E, OID_sha1 E, OID_sha224 E, OID_sha256 E, OID_sha384 E, OID_sha512 E]"
proof (intro conjI)
  show "\<forall>(s, algo, d, len) \<in> set (digest_table E).
            fst (lookup_oid_digest_info E s out) = 0 \<and>
            digest_algo (snd (lookup_oid_digest_info E s out)) =
              (if digest_algo out = None then None else Some algo) \<and>
            digest_len (snd (lookup_oid_digest_info E s out)) =
              (if digest_len out = None then None else Some len) \<and>
            digest_oid (snd (lookup_oid_digest_info E s out)) =
              (if digest_oid out = None then None else Some d)"
  proof (intro ballI, clarify)
    fix s algo d len
    assume "(s, algo, d, len) \<in> set (digest_table E)"
    then have "lookup_oid_digest_info E s out = (0, set_digest out algo d len)"
      by (rule lookup_row [OF assms])
    then show "fst (lookup_oid_digest_info E s out) = 0 \<and>
            digest_algo (snd (lookup_oid_digest_info E s out)) =
              (if digest_algo out = None then None else Some algo) \<and>
            digest_len (snd (lookup_oid_digest_info E s out)) =
              (if digest_len out = None then None else Some len) \<and>
            digest_oid (snd (lookup_oid_digest_info E s out)) =
              (if digest_oid out = None then None else Some d)"
      by (simp add: set_digest_def store_def split: option.splits)
  qed
  show "\<forall>d \<in> set (digest_symbols E). lookup_oid_digest_info E d out = (- 1, out)"
    using lookup_digest_symbol [OF assms] by blast
  show "symb \<notin> set (signature_symbols E) \<longrightarrow> lookup_oid_digest_info E symb out = (- 1, out)"
    using lookup_other by blast
  show "(fst (lookup_oid_digest_info E symb out) = 0) = (symb \<in> set (signature_symbols E))"
  proof (cases "symb \<in> set (signature_symbols E)")
    case True
    then have "\<exists>row \<in> set (digest_table E). fst row = symb"
      by (auto simp add: signature_symbols_def)
    then obtain algo d len where "(symb, algo, d, len) \<in> set (digest_table E)"
      by auto
    then have "lookup_oid_digest_info E symb out = (0, set_digest out algo d len)"
      by (rule lookup_row [OF assms])
    with True show ?thesis by simp
  next
    case False
    then have "lookup_oid_digest_info E symb out = (- 1, out)"
      by (rule lookup_other)
    with False show ?thesis by simp
  qed
  show "digest_table E =
           [(OID_md4WithRSAEncryption E, ''md4'', OID_md4 E, 16),
            (OID_sha1WithRSAEncryption E, ''sha1'', OID_sha1 E, 20),
            (OID_id_ecdsa_with_sha1 E, ''sha1'', OID_sha1 E, 20),
            (OID_sha224WithRSAEncryption E, ''sha224'', OID_sha224 E, 28),
            (OID_sha256WithRSAEncryption E, ''sha256'', OID_sha256 E, 32),
            (OID_id_ecdsa_with_sha256 E, ''sha256'', OID_sha256 E, 32),
            (OID_sha384WithRSAEncryption E, ''sha384'', OID_sha384 E, 48),
            (OID_id_ecdsa_with_sha384 E, ''sha384'', OID_sha384 E, 48),
            (OID_sha512WithRSAEncryption E, ''sha512'', OID_sha512 E, 64),
            (OID_id_ecdsa_with_sha512 E, ''sha512'', OID_sha512 E, 64)]"
    by (simp only: digest_table_def)
  show "signature_symbols E =
           [OID_md4WithRSAEncryption E, OID_sha1WithRSAEncryption E, OID_id_ecdsa_with_sha1 E,
            OID_sha224WithRSAEncryption E, OID_sha256WithRSAEncryption E,
            OID_id_ecdsa_with_sha256 E, OID_sha384WithRSAEncryption E,
            OID_id_ecdsa_with_sha384 E, OID_sha512WithRSAEncryption E,
            OID_id_ecdsa_with_sha512 E]"
    by (simp add: signature_symbols_def digest_table_def)
  show "digest_symbols E =
           [OID_md4 E, OID_sha1 E, OID_sha224 E, OID_sha256 E, OID_sha384 E, OID_sha512 E]"
    by (simp only: digest_symbols_def)
qed

theorem lookup_oid_digest_info_complete_witness:
  "enumerators_distinct example_names \<and>
   fst (lookup_oid_digest_info example_names 13
     \<lparr>digest_algo = Some [], digest_len = Some 0, digest_oid = Some 0\<rparr>) = 0 \<and>
   digest_algo (snd (lookup_oid_digest_info example_names 13
     \<lparr>digest_algo = Some [], digest_len = Some 0, digest_oid = Some 0\<rparr>)) = Some ''sha256'' \<and>
   digest_len (snd (lookup_oid_digest_info example_names 13
     \<lparr>digest_algo = Some [], digest_len = Some 0, digest_oid = Some 0\<rparr>)) = Some 32 \<and>
   digest_oid (snd (lookup_oid_digest_info example_names 13
     \<lparr>digest_algo = Some [], digest_len = Some 0, digest_oid = Some 0\<rparr>)) = Some 40 \<and>
   lookup_oid_digest_info example_names 40
     \<lparr>digest_algo = Some [], digest_len = Some 0, digest_oid = Some 0\<rparr> =
     (- 1, \<lparr>digest_algo = Some [], digest_len = Some 0, digest_oid = Some 0\<rparr>)"
proof -
  define out
    where "out = \<lparr>digest_algo = Some [], digest_len = Some (0::32 word), digest_oid = Some (0::nat)\<rparr>"
  have dist: "enumerators_distinct example_names"
    by (simp add: enumerators_distinct_def signature_symbols_def digest_symbols_def
        digest_table_def example_names_def)
  note all = lookup_oid_digest_info_complete [OF dist, of out 0]
  have row: "(13, ''sha256'', 40, 32) \<in> set (digest_table example_names)"
    by (simp add: digest_table_def example_names_def)
  have dig: "40 \<in> set (digest_symbols example_names)"
    by (simp add: digest_symbols_def example_names_def)
  from all row have "fst (lookup_oid_digest_info example_names 13 out) = 0 \<and>
      digest_algo (snd (lookup_oid_digest_info example_names 13 out)) =
        (if digest_algo out = None then None else Some ''sha256'') \<and>
      digest_len (snd (lookup_oid_digest_info example_names 13 out)) =
        (if digest_len out = None then None else Some 32) \<and>
      digest_oid (snd (lookup_oid_digest_info example_names 13 out)) =
        (if digest_oid out = None then None else Some 40)"
    by blast
  moreover from all dig have "lookup_oid_digest_info example_names 40 out = (- 1, out)"
    by blast
  ultimately show ?thesis
    using dist by (simp add: out_def)
qed

subsection \<open>Formatting and the buffer\<close>

lemma digit_char_not_NUL: "d < 10 \<Longrightarrow> digit_char d \<noteq> NUL"
proof -
  assume "d < 10"
  then have "''0123456789'' ! d \<in> set ''0123456789''" by (intro nth_mem) simp
  moreover have "NUL \<notin> set ''0123456789''" by (simp add: NUL_def)
  ultimately show ?thesis unfolding digit_char_def by metis
qed

lemma dec_no_NUL: "NUL \<notin> set (dec n)"
proof (induction n rule: dec.induct)
  case (1 n)
  show ?case
  proof (cases "n < 10")
    case True
    then show ?thesis
      using digit_char_not_NUL [of n] by (subst dec.simps) auto
  next
    case False
    have "n mod 10 < 10" by simp
    then have "digit_char (n mod 10) \<noteq> NUL" by (rule digit_char_not_NUL)
    with False 1 show ?thesis by (subst dec.simps) auto
  qed
qed

lemma dec_not_Nil: "dec n \<noteq> []"
  by (subst dec.simps) simp

lemma snprintf_count: "snd (snprintf buffer txt) = length txt"
  by (simp add: snprintf_def)

lemma snprintf_fits:
  assumes "length txt < length buffer"
  shows "snprintf buffer txt = (txt @ NUL # drop (length txt + 1) buffer, length txt)"
  using assms by (auto simp add: snprintf_def min_def)

lemma emit_fits:
  assumes "length (concat ss) < length buffer"
  shows "emit ss trunc written buffer ret =
    (let rest = (if ss = [] then buffer else NUL # drop (length (concat ss) + 1) buffer)
     in if trunc then bad (written @ concat ss) rest
        else (Inr (ret + length (concat ss)), written @ concat ss @ rest))"
  using assms
proof (induction ss arbitrary: written buffer ret)
  case Nil
  show ?case by simp
next
  case (Cons s ss)
  define b2 where "b2 = NUL # drop (length s + 1) buffer"
  from Cons.prems have fit: "length s < length buffer" by simp
  have sn: "snprintf buffer s = (s @ b2, length s)"
    unfolding b2_def using snprintf_fits [OF fit] by simp
  have l2: "length (concat ss) < length b2"
    using Cons.prems by (simp add: b2_def)
  have step: "emit (s # ss) trunc written buffer ret =
      emit ss trunc (written @ s) b2 (ret + length s)"
    using fit by (simp add: sn)
  have rest: "(if ss = [] then b2 else NUL # drop (length (concat ss) + 1) b2) =
      NUL # drop (length (concat (s # ss)) + 1) buffer"
    by (simp add: b2_def add.commute add.left_commute)
  show ?case
    unfolding step Cons.IH [OF l2] rest by (simp add: Let_def)
qed

lemma emit_overflow:
  assumes "ss \<noteq> []" "length buffer \<le> length (concat ss)"
  shows "fst (emit (ss @ ts) trunc written buffer ret) = Inl ENOBUFS"
  using assms
proof (induction ss arbitrary: written buffer ret)
  case Nil
  then show ?case by simp
next
  case (Cons s ss)
  show ?case
  proof (cases "length buffer \<le> length s")
    case True
    then show ?thesis by (simp add: snprintf_def)
  next
    case False
    then have fit: "length s < length buffer" by simp
    define b2 where "b2 = NUL # drop (length s + 1) buffer"
    have sn: "snprintf buffer s = (s @ b2, length s)"
      unfolding b2_def using snprintf_fits [OF fit] by simp
    have step: "emit ((s # ss) @ ts) trunc written buffer ret =
        emit (ss @ ts) trunc (written @ s) b2 (ret + length s)"
      using fit by (simp add: sn)
    have l2: "length b2 \<le> length (concat ss)"
      using Cons.prems fit by (simp add: b2_def)
    moreover have "0 < length b2" by (simp add: b2_def)
    ultimately have "ss \<noteq> []" by auto
    then show ?thesis unfolding step using l2 by (rule Cons.IH)
  qed
qed

subsection \<open>Reading an arc\<close>

lemma low7: "unat ((n::octet) AND 0x7f) = unat n mod 128"
proof -
  have m: "(0x7f :: octet) = mask 7" by (simp add: mask_eq_exp_minus_1)
  have "unat (n AND mask 7) = unat (take_bit 7 n)" by (simp only: take_bit_eq_mask)
  also have "\<dots> = take_bit 7 (unat n)" by (rule unsigned_take_bit_eq)
  also have "\<dots> = unat n mod 128" by (simp add: take_bit_eq_mod)
  finally show ?thesis unfolding m .
qed

lemma high_clear: "(n::octet) AND 0x80 = 0 \<Longrightarrow> unat n < 128"
proof -
  assume a: "n AND 0x80 = 0"
  have "\<not> bit n 7"
  proof
    assume "bit n 7"
    then have "bit (n AND 0x80) 7" by (simp add: bit_and_iff)
    with a show False by simp
  qed
  then have nb: "\<not> bit n 7" .
  have low: "k < 7" if "bit n k" for k
  proof -
    from that have "k < 8" by (auto dest: bit_imp_le_length)
    moreover from that nb have "k \<noteq> 7" by auto
    ultimately show ?thesis by arith
  qed
  have "n = n AND 0x7f"
  proof -
    have m: "(0x7f :: octet) = mask 7" by (simp add: mask_eq_exp_minus_1)
    show ?thesis unfolding m
      by (rule bit_eqI) (auto simp add: bit_and_iff bit_mask_iff dest: low)
  qed
  then have "unat n = unat (n AND 0x7f)" by simp
  also have "\<dots> = unat n mod 128" by (rule low7)
  finally have "unat n = unat n mod 128" .
  moreover have "unat n mod 128 < 128" by simp
  ultimately show ?thesis by simp
qed

lemma varint_step:
  "push_bit 7 (of_nat a :: 64 word) OR ucast ((n::octet) AND 0x7f) = of_nat (a * 128 + unat n mod 128)"
proof -
  have m: "(0x7f :: octet) = mask 7" by (simp add: mask_eq_exp_minus_1)
  have disj: "push_bit 7 (of_nat a :: 64 word) AND ucast (n AND 0x7f) = 0"
    unfolding m by (rule bit_eqI) (auto simp add: bit_simps)
  have u: "(ucast (n AND 0x7f) :: 64 word) = of_nat (unat n mod 128)"
    by (simp add: low7 [symmetric])
  have "push_bit 7 (of_nat a :: 64 word) OR ucast (n AND 0x7f) =
      push_bit 7 (of_nat a) + ucast (n AND 0x7f)"
    using disj by (rule disjunctive_add_eq_or [symmetric])
  also have "\<dots> = of_nat (a * 128 + unat n mod 128)"
    by (simp add: u push_bit_eq_mult)
  finally show ?thesis .
qed


lemma truncated_Cons:
  "truncated (n # v) = (if v = [] then n AND 0x80 \<noteq> 0 else truncated v)"
  by (simp add: truncated_def)

lemma varint_more_None:
  assumes "varint_more v (of_nat a) = None"
  shows "oid_groups acc v = [] \<and> (v \<noteq> [] \<longrightarrow> truncated v)"
  using assms
proof (induction v arbitrary: a acc)
  case Nil
  show ?case by simp
next
  case (Cons n u)
  from Cons.prems have high: "n AND 0x80 \<noteq> 0"
    and rec: "varint_more u (of_nat (a * 128 + unat n mod 128)) = None"
    by (simp_all add: Let_def varint_step split: if_splits)
  from Cons.IH [OF rec, of "acc @ [n]"] high
  show ?case by (simp add: truncated_Cons)
qed

lemma varint_more_Some:
  assumes "varint_more v (of_nat a) = Some (num, v')"
  shows "\<exists>g. oid_groups acc v = (acc @ g) # oid_groups [] v' \<and>
           num = of_nat (foldl (\<lambda>a b. a * 128 + unat b mod 128) a g) \<and>
           truncated v = truncated v'"
  using assms
proof (induction v arbitrary: a acc)
  case Nil
  then show ?case by simp
next
  case (Cons n u)
  show ?case
  proof (cases "n AND 0x80 = 0")
    case True
    with Cons.prems have "num = of_nat (a * 128 + unat n mod 128)" and "v' = u"
      by (simp_all add: Let_def varint_step)
    with True have "oid_groups acc (n # u) = (acc @ [n]) # oid_groups [] v' \<and>
           num = of_nat (foldl (\<lambda>a b. a * 128 + unat b mod 128) a [n]) \<and>
           truncated (n # u) = truncated v'"
      by (simp add: truncated_Cons truncated_def)
    then show ?thesis by blast
  next
    case False
    with Cons.prems have rec: "varint_more u (of_nat (a * 128 + unat n mod 128)) = Some (num, v')"
      by (simp add: Let_def varint_step)
    then have "u \<noteq> []" by auto
    from Cons.IH [OF rec, of "acc @ [n]"] obtain g
      where g: "oid_groups (acc @ [n]) u = (acc @ [n] @ g) # oid_groups [] v'"
        and num: "num = of_nat (foldl (\<lambda>a b. a * 128 + unat b mod 128) (a * 128 + unat n mod 128) g)"
        and tr: "truncated u = truncated v'"
      by auto
    from False g num tr \<open>u \<noteq> []\<close>
    have "oid_groups acc (n # u) = (acc @ (n # g)) # oid_groups [] v' \<and>
           num = of_nat (foldl (\<lambda>a b. a * 128 + unat b mod 128) a (n # g)) \<and>
           truncated (n # u) = truncated v'"
      by (simp add: truncated_Cons)
    then show ?thesis by blast
  qed
qed

lemma read_arc_None:
  assumes "read_arc n v = None"
  shows "oid_groups [] (n # v) = [] \<and> truncated (n # v)"
proof -
  from assms have high: "n AND 0x80 \<noteq> 0"
    and rec: "varint_more v (of_nat (0 * 128 + unat n mod 128)) = None"
    by (simp_all add: read_arc_def low7 [symmetric] split: if_splits)
  from varint_more_None [OF rec, of "[n]"] high show ?thesis
    by (simp add: truncated_Cons)
qed

lemma read_arc_Some:
  assumes "read_arc n v = Some (num, v')"
  shows "\<exists>g. oid_groups [] (n # v) = g # oid_groups [] v' \<and>
           unat num = varint_value g mod 2 ^ 64 \<and>
           truncated (n # v) = truncated v'"
proof (cases "n AND 0x80 = 0")
  case True
  with assms have num: "num = ucast n" and v': "v' = v"
    by (simp_all add: read_arc_def)
  from True have "unat n < 128" by (rule high_clear)
  then have "varint_value [n] = unat n" by (simp add: varint_value_def)
  moreover have "unat (ucast n :: 64 word) = unat n"
    using \<open>unat n < 128\<close> by (simp add: unsigned_ucast_eq take_bit_nat_eq_self)
  moreover have "unat n mod 2 ^ 64 = unat n"
    using \<open>unat n < 128\<close> by simp
  ultimately have "oid_groups [] (n # v) = [n] # oid_groups [] v' \<and>
           unat num = varint_value [n] mod 2 ^ 64 \<and>
           truncated (n # v) = truncated v'"
    using True num v' by (simp add: truncated_Cons truncated_def)
  then show ?thesis by blast
next
  case False
  with assms have rec: "varint_more v (of_nat (0 * 128 + unat n mod 128)) = Some (num, v')"
    by (simp add: read_arc_def low7 [symmetric])
  then have "v \<noteq> []" by auto
  from varint_more_Some [OF rec, of "[n]"] obtain g
    where g: "oid_groups [n] v = ([n] @ g) # oid_groups [] v'"
      and num: "num = of_nat (foldl (\<lambda>a b. a * 128 + unat b mod 128) (0 * 128 + unat n mod 128) g)"
      and tr: "truncated v = truncated v'"
    by auto
  from num have "num = of_nat (varint_value (n # g))"
    by (simp add: varint_value_def)
  then have "unat num = varint_value (n # g) mod 2 ^ 64"
    by (simp add: unat_of_nat)
  with False g tr \<open>v \<noteq> []\<close>
  have "oid_groups [] (n # v) = (n # g) # oid_groups [] v' \<and>
           unat num = varint_value (n # g) mod 2 ^ 64 \<and>
           truncated (n # v) = truncated v'"
    by (simp add: truncated_Cons)
  then show ?thesis by blast
qed

lemma arcs_loop_emit:
  "arcs_loop v written buffer ret =
     emit (map arc_text (oid_groups [] v)) (truncated v) written buffer ret"
proof (induction v written buffer ret rule: arcs_loop.induct)
  case (1 written buffer ret)
  show ?case by (simp add: arcs_loop.simps truncated_def)
next
  case (2 n v written buffer ret)
  show ?case
  proof (cases "read_arc n v")
    case None
    from read_arc_None [OF None] None show ?thesis
      by (simp add: arcs_loop.simps)
  next
    case (Some x2)
    obtain num v' where x2: "x2 = (num, v')" by (cases x2)
    from read_arc_Some [OF Some [unfolded x2]] obtain g
      where g: "oid_groups [] (n # v) = g # oid_groups [] v'"
        and num: "unat num = varint_value g mod 2 ^ 64"
        and tr: "truncated (n # v) = truncated v'"
      by blast
    have seg: "''.'' @ dec (unat num) = arc_text g"
      by (simp add: arc_text_def num)
    obtain buffer' count where sn: "snprintf buffer (arc_text g) = (buffer', count)"
      by (cases "snprintf buffer (arc_text g)")
    have unf: "arcs_loop (n # v) written buffer ret =
        (if count \<ge> length buffer then (Inl ENOBUFS, written @ buffer')
         else arcs_loop v' (written @ take count buffer') (drop count buffer') (ret + count))"
      by (simp only: arcs_loop.simps Some x2 option.case prod.case seg sn)
    have em: "emit (map arc_text (oid_groups [] (n # v))) (truncated (n # v)) written buffer ret =
        (if count \<ge> length buffer then (Inl ENOBUFS, written @ buffer')
         else emit (map arc_text (oid_groups [] v')) (truncated v')
                (written @ take count buffer') (drop count buffer') (ret + count))"
      by (simp only: g tr list.map emit.simps sn prod.case)
    show ?thesis
    proof (cases "length buffer \<le> count")
      case True
      then show ?thesis by (simp only: unf em if_True)
    next
      case False
      have "arcs_loop v' (written @ take count buffer') (drop count buffer') (ret + count) =
          emit (map arc_text (oid_groups [] v')) (truncated v')
            (written @ take count buffer') (drop count buffer') (ret + count)"
        by (rule "2.IH" [OF Some x2 [symmetric] sn [folded seg, symmetric] False])
      with False show ?thesis by (simp only: unf em if_False)
    qed
  qed
qed

lemma sprint_oid_emit:
  "sprint_oid (n # v) buffer = emit (segments (n # v)) (truncated v) [] buffer 0"
proof -
  obtain buffer' count where sn: "snprintf buffer (first_text n) = (buffer', count)"
    by (cases "snprintf buffer (first_text n)")
  have "sprint_oid (n # v) buffer =
      (case snprintf buffer (first_text n) of
         (buffer', count) \<Rightarrow>
           if count \<ge> length buffer then (Inl ENOBUFS, buffer')
           else arcs_loop v (take count buffer') (drop count buffer') count)"
    by (simp only: sprint_oid_def first_text_def list.case)
  then show ?thesis
    by (simp add: segments_def sn arcs_loop_emit)
qed

subsection \<open>The result of printing\<close>

lemma segments_not_Nil: "data \<noteq> [] \<Longrightarrow> segments data \<noteq> []"
  by (cases data) (simp_all add: segments_def)

lemma concat_segments: "concat (segments data) = oid_text data"
proof (cases data)
  case Nil
  then show ?thesis by (simp add: segments_def oid_text_def oid_arcs_def)
next
  case (Cons n v)
  have a: "unat n div 40 mod 2 ^ 64 = unat n div 40"
  proof -
    have "unat n < 2 ^ 8" using unsigned_less [of n] by simp
    then have "unat n div 40 < 2 ^ 64" by simp
    then show ?thesis by simp
  qed
  have b: "unat n mod 40 mod 2 ^ 64 = unat n mod 40"
  proof -
    have "unat n mod 40 < 40" by simp
    then have "unat n mod 40 < 2 ^ 64" by simp
    then show ?thesis by simp
  qed
  show ?thesis
    unfolding Cons segments_def oid_text_def oid_arcs_def list.case list.map dotted.simps a b
      first_text_def
    by (simp add: comp_def arc_text_def [abs_def])
qed

lemma oid_text_no_NUL: "NUL \<notin> set (oid_text data)"
proof -
  have dot: "CHR ''.'' \<noteq> NUL" by (simp add: NUL_def)
  have "NUL \<notin> set (dotted as)" for as
    by (cases as) (auto simp add: dec_no_NUL dot dot [symmetric])
  then show ?thesis by (simp add: oid_text_def)
qed

lemma cstring_terminated: "NUL \<notin> set t \<Longrightarrow> cstring (t @ NUL # rest) = t"
  by (induction t) (auto simp add: cstring_def)

lemma sprint_oid_Nil: "sprint_oid [] buffer = bad [] buffer"
  by (simp add: sprint_oid_def)

lemma wellformed_Cons: "oid_wellformed (n # v) = (\<not> truncated v)"
  by (simp add: oid_wellformed_def)

lemma sprint_oid_fits:
  assumes "data \<noteq> []" "length (oid_text data) < length buffer"
  shows "sprint_oid data buffer =
    (if oid_wellformed data
     then (Inr (length (oid_text data)),
           oid_text data @ NUL # drop (length (oid_text data) + 1) buffer)
     else bad (oid_text data) (NUL # drop (length (oid_text data) + 1) buffer))"
proof -
  from assms(1) obtain n v where d: "data = n # v" by (cases data) auto
  have ne: "segments (n # v) \<noteq> []" by (rule segments_not_Nil) simp
  from assms(2) have fit: "length (concat (segments (n # v))) < length buffer"
    by (simp add: concat_segments d)
  show ?thesis
    unfolding d sprint_oid_emit emit_fits [OF fit] wellformed_Cons
    using ne by (simp add: Let_def concat_segments)
qed

lemma sprint_oid_overflow:
  assumes "data \<noteq> []" "length buffer \<le> length (oid_text data)"
  shows "fst (sprint_oid data buffer) = Inl ENOBUFS"
proof -
  from assms(1) obtain n v where d: "data = n # v" by (cases data) auto
  have ne: "segments (n # v) \<noteq> []" by (rule segments_not_Nil) simp
  from assms(2) have big: "length buffer \<le> length (concat (segments (n # v)))"
    by (simp add: concat_segments d)
  from emit_overflow [OF ne big, of "[]"] show ?thesis
    by (simp add: d sprint_oid_emit)
qed

lemma bad_fst: "fst (bad written buffer) = Inl EBADMSG"
  by (simp add: bad_def)

lemma sprint_oid_EBADMSG_iff:
  "(fst (sprint_oid data buffer) = Inl EBADMSG) =
     (\<not> oid_wellformed data \<and> (data = [] \<or> length (oid_text data) < length buffer))"
proof (cases "data = []")
  case True
  then show ?thesis by (simp add: sprint_oid_Nil bad_fst oid_wellformed_def)
next
  case False
  show ?thesis
  proof (cases "length (oid_text data) < length buffer")
    case True
    with False show ?thesis
      by (simp add: sprint_oid_fits [OF False True] bad_fst)
  next
    case big: False
    then have "length buffer \<le> length (oid_text data)" by simp
    from sprint_oid_overflow [OF False this] False big show ?thesis by simp
  qed
qed

text \<open>
  C4, as amended: \<open>sprint_oid\<close> returns \<open>EBADMSG\<close> exactly when the input is
  structurally invalid (empty, or the octets after the first end while a continuation is
  expected) and, unless the input is empty, the text of the arcs before the truncated
  one fits the buffer together with its terminator. An empty input always fails with
  \<open>EBADMSG\<close>; a structurally invalid input that is not empty and whose earlier
  segments do not fit fails with \<open>ENOBUFS\<close> instead; a structurally valid input
  never returns \<open>EBADMSG\<close>: it returns the length of its text when the text fits
  and \<open>ENOBUFS\<close> when it does not.
\<close>

theorem sprint_oid_malformed:
  "((fst (sprint_oid data buffer) = Inl EBADMSG) =
     (\<not> oid_wellformed data \<and> (data = [] \<or> length (oid_text data) < length buffer))) \<and>
   fst (sprint_oid [] buffer) = Inl EBADMSG \<and>
   (\<not> oid_wellformed data \<and> data \<noteq> [] \<and> length buffer \<le> length (oid_text data) \<longrightarrow>
      fst (sprint_oid data buffer) = Inl ENOBUFS) \<and>
   (oid_wellformed data \<longrightarrow>
      fst (sprint_oid data buffer) =
        (if length (oid_text data) < length buffer then Inr (length (oid_text data))
         else Inl ENOBUFS))"
proof (intro conjI impI)
  show "(fst (sprint_oid data buffer) = Inl EBADMSG) =
     (\<not> oid_wellformed data \<and> (data = [] \<or> length (oid_text data) < length buffer))"
    by (rule sprint_oid_EBADMSG_iff)
  show "fst (sprint_oid [] buffer) = Inl EBADMSG"
    by (simp add: sprint_oid_Nil bad_fst)
next
  assume "\<not> oid_wellformed data \<and> data \<noteq> [] \<and> length buffer \<le> length (oid_text data)"
  then show "fst (sprint_oid data buffer) = Inl ENOBUFS"
    by (intro sprint_oid_overflow) simp_all
next
  assume wf: "oid_wellformed data"
  then have ne: "data \<noteq> []" by (auto simp add: oid_wellformed_def)
  show "fst (sprint_oid data buffer) =
        (if length (oid_text data) < length buffer then Inr (length (oid_text data))
         else Inl ENOBUFS)"
  proof (cases "length (oid_text data) < length buffer")
    case True
    from sprint_oid_fits [OF ne True] wf True show ?thesis by simp
  next
    case False
    then have "length buffer \<le> length (oid_text data)" by simp
    from sprint_oid_overflow [OF ne this] False show ?thesis by simp
  qed
qed

text \<open>
  The claim C4 as stated fails: the input \<open>2a 86\<close> ends in a continuation octet,
  and with a buffer of three characters the result is \<open>ENOBUFS\<close>, not
  \<open>EBADMSG\<close>, because the segment \<open>1.2\<close> does not fit.
\<close>

theorem sprint_oid_malformed_counterexample:
  "\<not> ((fst (sprint_oid [0x2a, 0x86] ''xxx'') = Inl EBADMSG) =
       (\<not> oid_wellformed [0x2a, 0x86]))"
  by (simp add: sprint_oid_def snprintf_def dec.simps digit_char_def oid_wellformed_def
      truncated_def)

theorem sprint_oid_malformed_witness:
  "fst (sprint_oid [0x2a, 0x86] (replicate 8 CHR ''x'')) = Inl EBADMSG \<and>
   fst (sprint_oid [0x2a, 0x86] (replicate 3 CHR ''x'')) = Inl ENOBUFS \<and>
   fst (sprint_oid [0x2a, 0x06] (replicate 8 CHR ''x'')) = Inr 5 \<and>
   fst (sprint_oid [0x2a, 0x06] (replicate 5 CHR ''x'')) = Inl ENOBUFS"
proof -
  have t1: "oid_text [0x2a, 0x86] = ''1.2''"
    by (simp add: oid_text_def oid_arcs_def dec.simps digit_char_def)
  have t2: "oid_text [0x2a, 0x06] = ''1.2.6''"
    by (simp add: oid_text_def oid_arcs_def varint_value_def dec.simps digit_char_def)
  have w1: "\<not> oid_wellformed [0x2a, 0x86]"
    by (simp add: oid_wellformed_def truncated_def)
  have w2: "oid_wellformed [0x2a, 0x06]"
    by (simp add: oid_wellformed_def truncated_def)
  from sprint_oid_malformed [of "[0x2a, 0x86]" "replicate 8 CHR ''x''"]
    sprint_oid_malformed [of "[0x2a, 0x86]" "replicate 3 CHR ''x''"]
    sprint_oid_malformed [of "[0x2a, 0x06]" "replicate 8 CHR ''x''"]
    sprint_oid_malformed [of "[0x2a, 0x06]" "replicate 5 CHR ''x''"]
    w1 w2
  show ?thesis by (simp add: t1 t2)
qed

lemma bad_text_no_NUL: "NUL \<notin> set (take k ''(bad)'')"
proof -
  have "NUL \<notin> set ''(bad)''" by (simp add: NUL_def)
  then show ?thesis by (meson in_set_takeD)
qed

lemma snprintf_bad:
  assumes "buffer \<noteq> []"
  shows "cstring (t @ fst (snprintf buffer ''(bad)'')) =
           (if NUL \<in> set t then cstring t else t @ take (length buffer - 1) ''(bad)'')"
    and "length (fst (snprintf buffer ''(bad)'')) = length buffer"
proof -
  define k where "k = length buffer - 1"
  define rest where "rest = drop (min (length ''(bad)'') k + 1) buffer"
  have sn: "fst (snprintf buffer ''(bad)'') = take k ''(bad)'' @ NUL # rest"
    using assms by (simp add: snprintf_def k_def rest_def)
  show "length (fst (snprintf buffer ''(bad)'')) = length buffer"
    using assms unfolding sn rest_def k_def by (cases buffer) (auto simp add: min_def)
  show "cstring (t @ fst (snprintf buffer ''(bad)'')) =
           (if NUL \<in> set t then cstring t else t @ take (length buffer - 1) ''(bad)'')"
  proof (cases "NUL \<in> set t")
    case True
    then show ?thesis by (simp add: cstring_def takeWhile_append1)
  next
    case False
    then have "NUL \<notin> set (t @ take k ''(bad)'')" using bad_text_no_NUL [of k] by simp
    then have "cstring ((t @ take k ''(bad)'') @ NUL # rest) = t @ take k ''(bad)''"
      by (rule cstring_terminated)
    with False show ?thesis by (simp add: sn k_def)
  qed
qed

text \<open>
  C9, as amended: when \<open>sprint_oid\<close> fails with \<open>EBADMSG\<close>, the placeholder
  \<open>(bad)\<close> is written where the next segment would have gone, cut off at the rest
  of the capacity: the buffer holds the text of the arcs printed so far (none for an
  empty input) followed by as much of \<open>(bad)\<close> as fits before the terminator. A
  buffer of no characters is left as it is, and the buffer keeps its length.
\<close>

theorem sprint_oid_bad_buffer:
  assumes "fst (sprint_oid data buffer) = Inl EBADMSG"
  shows "(buffer = [] \<longrightarrow> snd (sprint_oid data buffer) = []) \<and>
         (buffer \<noteq> [] \<longrightarrow>
            cstring (snd (sprint_oid data buffer)) =
              oid_text data @ take (length buffer - length (oid_text data) - 1) ''(bad)'') \<and>
         length (snd (sprint_oid data buffer)) = length buffer"
proof (cases "data = []")
  case True
  have t: "oid_text [] = []" by (simp add: oid_text_def oid_arcs_def)
  show ?thesis
  proof (cases "buffer = []")
    case True
    with \<open>data = []\<close> show ?thesis by (simp add: sprint_oid_Nil bad_def snprintf_def)
  next
    case False
    from snprintf_bad(1) [OF False, of "[]"] snprintf_bad(2) [OF False] False \<open>data = []\<close> show ?thesis
      by (simp add: sprint_oid_Nil bad_def t)
  qed
next
  case False
  define t where "t = oid_text data"
  define rest where "rest = NUL # drop (length t + 1) buffer"
  from assms False have nwf: "\<not> oid_wellformed data" and fit: "length t < length buffer"
    by (simp_all add: sprint_oid_EBADMSG_iff t_def)
  then have ne: "buffer \<noteq> []" by auto
  have r: "sprint_oid data buffer = bad t rest"
    using sprint_oid_fits [OF False fit [unfolded t_def]] nwf by (simp add: t_def rest_def)
  have rl: "length rest = length buffer - length t" using fit by (simp add: rest_def)
  have rne: "rest \<noteq> []" by (simp add: rest_def)
  have nn: "NUL \<notin> set t" unfolding t_def by (rule oid_text_no_NUL)
  from snprintf_bad(1) [OF rne, of t] snprintf_bad(2) [OF rne] nn rl fit ne show ?thesis
    by (simp add: r bad_def t_def [symmetric])
qed

text \<open>
  The claim C9 as stated fails: on the truncated input \<open>2a 86\<close> and a buffer of
  sixteen characters the result is \<open>EBADMSG\<close> and the buffer holds
  \<open>1.2(bad)\<close>, not the placeholder alone.
\<close>

theorem sprint_oid_bad_buffer_counterexample:
  "\<not> (fst (sprint_oid [0x2a, 0x86] (replicate 16 CHR ''x'')) = Inl EBADMSG \<longrightarrow>
       cstring (snd (sprint_oid [0x2a, 0x86] (replicate 16 CHR ''x''))) = take 15 ''(bad)'')"
  by (simp add: sprint_oid_def snprintf_def dec.simps digit_char_def arcs_loop.simps
      read_arc_def bad_def cstring_def NUL_def)

theorem sprint_oid_bad_buffer_witness:
  "fst (sprint_oid [0x2a, 0x86] (replicate 16 CHR ''x'')) = Inl EBADMSG \<and>
   cstring (snd (sprint_oid [0x2a, 0x86] (replicate 16 CHR ''x''))) = ''1.2(bad)'' \<and>
   fst (sprint_oid [] ''xxx'') = Inl EBADMSG \<and>
   cstring (snd (sprint_oid [] ''xxx'')) = ''(b''"
proof -
  have a: "fst (sprint_oid [0x2a, 0x86] (replicate 16 CHR ''x'')) = Inl EBADMSG"
    by (simp add: sprint_oid_EBADMSG_iff oid_wellformed_def truncated_def oid_text_def
        oid_arcs_def dec.simps digit_char_def)
  have b: "fst (sprint_oid [] ''xxx'') = Inl EBADMSG"
    by (simp add: sprint_oid_EBADMSG_iff oid_wellformed_def)
  from sprint_oid_bad_buffer [OF a] sprint_oid_bad_buffer [OF b] a b show ?thesis
    by (simp add: oid_text_def oid_arcs_def dec.simps digit_char_def)
qed

lemma oid_groups_append:
  assumes "\<not> truncated v"
  shows "oid_groups acc (v @ w) = oid_groups acc v @ oid_groups (if v = [] then acc else []) w"
  using assms
proof (induction v arbitrary: acc)
  case Nil
  show ?case by simp
next
  case (Cons b bs)
  show ?case
  proof (cases "b AND 0x80 = 0")
    case True
    from Cons.prems have "\<not> truncated bs" by (simp add: truncated_Cons truncated_def split: if_splits)
    from Cons.IH [OF this, of "[]"] True show ?thesis by simp
  next
    case False
    with Cons.prems have "bs \<noteq> []" and "\<not> truncated bs"
      by (simp_all add: truncated_Cons split: if_splits)
    from Cons.IH [OF this(2), of "acc @ [b]"] False \<open>bs \<noteq> []\<close> show ?thesis by simp
  qed
qed

lemma segments_append:
  assumes "oid_wellformed pre"
  shows "\<exists>ts. segments (pre @ post) = segments pre @ ts"
proof -
  from assms obtain n v where p: "pre = n # v" and tr: "\<not> truncated v"
    by (cases pre) (auto simp add: oid_wellformed_def)
  from oid_groups_append [OF tr, of "[]" post] show ?thesis
    by (simp add: p segments_def)
qed

lemma sprint_oid_success:
  assumes "sprint_oid data buffer = (Inr r, out)"
  shows "oid_wellformed data" and "length (oid_text data) < length buffer"
    and "r = length (oid_text data)"
    and "out = oid_text data @ NUL # drop (length (oid_text data) + 1) buffer"
proof -
  have ne: "data \<noteq> []"
  proof
    assume "data = []"
    with assms show False by (simp add: sprint_oid_Nil bad_def)
  qed
  show fit: "length (oid_text data) < length buffer"
  proof (rule ccontr)
    assume "\<not> length (oid_text data) < length buffer"
    then have "length buffer \<le> length (oid_text data)" by simp
    from sprint_oid_overflow [OF ne this] assms show False by simp
  qed
  from assms have "fst (sprint_oid data buffer) \<noteq> Inl EBADMSG" by simp
  with ne fit show wf: "oid_wellformed data" by (simp add: sprint_oid_EBADMSG_iff)
  from sprint_oid_fits [OF ne fit] wf assms
  show "r = length (oid_text data)"
    and "out = oid_text data @ NUL # drop (length (oid_text data) + 1) buffer"
    by simp_all
qed

lemma oid_text_1_2_840: "oid_text [0x2a, 0x86, 0x48] = ''1.2.840''"
  by (simp add: oid_text_def oid_arcs_def varint_value_def dec.simps digit_char_def)

text \<open>
  C5: the encoding \<open>2a 86 48\<close> of 1.2.840 fails with \<open>ENOBUFS\<close> in a buffer of
  7 characters, and in a buffer of 8 or more it returns 7 and leaves the text
  \<open>1.2.840\<close>. In general a successful call returns the length of the text the
  buffer then holds, the terminator not counted, which is less than the capacity; and
  as soon as the segments of a prefix of the input do not fit, the call fails with
  \<open>ENOBUFS\<close>, whatever follows that prefix.
\<close>

theorem sprint_oid_capacity:
  "(length buffer = 7 \<longrightarrow> fst (sprint_oid [0x2a, 0x86, 0x48] buffer) = Inl ENOBUFS) \<and>
   (8 \<le> length buffer \<longrightarrow>
      fst (sprint_oid [0x2a, 0x86, 0x48] buffer) = Inr 7 \<and>
      cstring (snd (sprint_oid [0x2a, 0x86, 0x48] buffer)) = ''1.2.840'') \<and>
   (sprint_oid data buffer = (Inr r, out) \<longrightarrow>
      cstring out = oid_text data \<and> r = length (cstring out) \<and> r < length buffer \<and>
      length out = length buffer) \<and>
   (oid_wellformed pre \<and> length buffer \<le> length (oid_text pre) \<longrightarrow>
      fst (sprint_oid (pre @ post) buffer) = Inl ENOBUFS)"
proof (intro conjI impI)
  assume "length buffer = 7"
  then show "fst (sprint_oid [0x2a, 0x86, 0x48] buffer) = Inl ENOBUFS"
    by (intro sprint_oid_overflow) (simp_all add: oid_text_1_2_840)
next
  assume big: "8 \<le> length buffer"
  then have fit: "length (oid_text [0x2a, 0x86, 0x48]) < length buffer"
    by (simp add: oid_text_1_2_840)
  have wf: "oid_wellformed [0x2a, 0x86, 0x48]"
    by (simp add: oid_wellformed_def truncated_def)
  have r: "sprint_oid [0x2a, 0x86, 0x48] buffer =
      (Inr (length (oid_text [0x2a, 0x86, 0x48])),
       oid_text [0x2a, 0x86, 0x48] @
         NUL # drop (length (oid_text [0x2a, 0x86, 0x48]) + 1) buffer)"
    using sprint_oid_fits [OF _ fit] wf by simp
  show "fst (sprint_oid [0x2a, 0x86, 0x48] buffer) = Inr 7"
    by (simp add: r oid_text_1_2_840)
  have "cstring (snd (sprint_oid [0x2a, 0x86, 0x48] buffer)) = oid_text [0x2a, 0x86, 0x48]"
    unfolding r snd_conv using oid_text_no_NUL by (rule cstring_terminated)
  then show "cstring (snd (sprint_oid [0x2a, 0x86, 0x48] buffer)) = ''1.2.840''"
    by (simp only: oid_text_1_2_840)
next
  assume ok: "sprint_oid data buffer = (Inr r, out)"
  note s = sprint_oid_success [OF ok]
  have c: "cstring out = oid_text data"
    unfolding s(4) using oid_text_no_NUL by (rule cstring_terminated)
  show "cstring out = oid_text data" by (rule c)
  show "r = length (cstring out)" by (simp add: c s(3))
  show "r < length buffer" using s(2,3) by simp
  show "length out = length buffer" using s(2) by (simp add: s(4))
next
  assume a: "oid_wellformed pre \<and> length buffer \<le> length (oid_text pre)"
  then have ne: "pre \<noteq> []" by (auto simp add: oid_wellformed_def)
  from a obtain ts where ts: "segments (pre @ post) = segments pre @ ts"
    using segments_append by blast
  from ne obtain n v where p: "pre = n # v" by (cases pre) auto
  have "fst (emit (segments pre @ ts) (truncated (v @ post)) [] buffer 0) = Inl ENOBUFS"
    using a by (intro emit_overflow segments_not_Nil ne) (simp add: concat_segments)
  then show "fst (sprint_oid (pre @ post) buffer) = Inl ENOBUFS"
    by (simp add: p sprint_oid_emit ts [unfolded p, simplified])
qed

theorem sprint_oid_capacity_witness:
  "fst (sprint_oid [0x2a, 0x86, 0x48] ''xxxxxxx'') = Inl ENOBUFS \<and>
   fst (sprint_oid [0x2a, 0x86, 0x48] ''xxxxxxxx'') = Inr 7 \<and>
   cstring (snd (sprint_oid [0x2a, 0x86, 0x48] ''xxxxxxxx'')) = ''1.2.840'' \<and>
   fst (sprint_oid ([0x2a, 0x86, 0x48] @ [0x86]) ''xxxxxxx'') = Inl ENOBUFS"
proof -
  have wf: "oid_wellformed [0x2a, 0x86, 0x48]"
    by (simp add: oid_wellformed_def truncated_def)
  from sprint_oid_capacity [of "''xxxxxxx''" "[]" 0 "[]" "[0x2a, 0x86, 0x48]" "[0x86]"]
    sprint_oid_capacity [of "''xxxxxxxx''" "[]" 0 "[]" "[]" "[]"] wf
  show ?thesis by (simp add: oid_text_1_2_840)
qed

text \<open>
  C7: when the tables have their shape, the symbol is below \<open>OID_NR\<close> and the
  canonical bytes of every symbol are a structurally valid encoding, \<open>sprint_OID\<close>
  hits neither \<^verbatim>\<open>BUG_ON\<close> nor a read outside the tables: it returns what
  \<open>sprint_oid\<close> returns on the symbol's range of the blob, and that is a length or
  \<open>ENOBUFS\<close>, never \<open>EBADMSG\<close>.
\<close>

theorem sprint_OID_never_malformed:
  assumes bounds: "registry_bounds T" and s: "symb < OID_NR T"
    and wf: "\<forall>s<OID_NR T. oid_wellformed (canonical_bytes T s)"
  shows "sprint_OID T symb buffer = Inr (sprint_oid (canonical_bytes T symb) buffer) \<and>
         (fst (sprint_oid (canonical_bytes T symb) buffer) = Inl ENOBUFS \<or>
          (\<exists>n. fst (sprint_oid (canonical_bytes T symb) buffer) = Inr n))"
proof -
  define c where "c = canonical_bytes T symb"
  from bounds have len: "length (oid_index T) = OID_NR T + 1" by (simp add: registry_bounds_def)
  have r1: "read_at (oid_index T) symb = Inr (oid_index T ! symb)"
    using s len by (simp add: read_at_def)
  have r2: "read_at (oid_index T) (symb + 1) = Inr (oid_index T ! Suc symb)"
    using s len by (simp add: read_at_def)
  have sz: "size_t_diff (oid_index T ! Suc symb) (oid_index T ! symb) = length c"
    unfolding c_def by (rule size_t_diff_index [OF bounds s])
  have inb: "\<not> length (oid_data T) < oid_index T ! symb + length c"
    using index_mono [OF bounds s] by (simp add: c_def length_canonical [OF bounds s])
  have tk: "take (length c) (drop (oid_index T ! symb) (oid_data T)) = c"
    by (simp only: c_def length_canonical [OF bounds s]) (simp only: canonical_bytes_def)
  from wf s have "oid_wellformed c" by (simp add: c_def)
  then have nb: "fst (sprint_oid c buffer) \<noteq> Inl EBADMSG"
    by (simp add: sprint_oid_EBADMSG_iff)
  have "sprint_OID T symb buffer = Inr (sprint_oid c buffer)"
    unfolding sprint_OID_def Let_def r1 r2 sum.case sz tk
    using s inb nb by simp
  moreover have "fst (sprint_oid c buffer) = Inl ENOBUFS \<or> (\<exists>n. fst (sprint_oid c buffer) = Inr n)"
  proof (cases "fst (sprint_oid c buffer)")
    case (Inl e)
    with nb show ?thesis by (cases e) simp_all
  next
    case (Inr n)
    then show ?thesis by simp
  qed
  ultimately show ?thesis by (simp add: c_def)
qed

lemma sprint_oid_text:
  assumes "oid_wellformed data" "oid_text data = t" "length t < length buffer"
  shows "sprint_oid data buffer = (Inr (length t), t @ NUL # drop (length t + 1) buffer)"
proof -
  from assms(1) have ne: "data \<noteq> []" by (auto simp add: oid_wellformed_def)
  from assms(2,3) have "length (oid_text data) < length buffer" by simp
  from sprint_oid_fits [OF ne this] assms(1,2) show ?thesis by simp
qed

theorem sprint_OID_never_malformed_witness:
  "registry_bounds example_registry \<and> 3 < OID_NR example_registry \<and>
   sprint_OID example_registry 3 (replicate 12 CHR ''x'') =
     Inr (Inr 9, ''2.5.29.31'' @ NUL # replicate 2 CHR ''x'') \<and>
   fst (sprint_oid (canonical_bytes example_registry 3) (replicate 9 CHR ''x'')) = Inl ENOBUFS"
proof -
  have s: "3 < OID_NR example_registry" by (simp add: example_registry_def)
  have c: "canonical_bytes example_registry 3 = [0x55, 0x1d, 0x1f]"
    by (simp add: canonical_bytes_def example_registry_def)
  have wf: "\<forall>s<OID_NR example_registry. oid_wellformed (canonical_bytes example_registry s)"
  proof (intro allI impI)
    fix s assume "s < OID_NR example_registry"
    then have "s < 4" by (simp add: example_registry_def)
    then consider "s = 0" | "s = 1" | "s = 2" | "s = 3" by arith
    then show "oid_wellformed (canonical_bytes example_registry s)"
      by cases (simp_all add: canonical_bytes_def example_registry_def oid_wellformed_def
          truncated_def)
  qed
  have t: "oid_text [0x55, 0x1d, 0x1f] = ''2.5.29.31''"
    by (simp add: oid_text_def oid_arcs_def varint_value_def dec.simps digit_char_def)
  have w: "oid_wellformed [0x55, 0x1d, 0x1f]"
    by (simp add: oid_wellformed_def truncated_def)
  have a: "sprint_oid [0x55, 0x1d, 0x1f] (replicate 12 CHR ''x'') =
      (Inr 9, ''2.5.29.31'' @ NUL # replicate 2 CHR ''x'')"
    using sprint_oid_text [OF w t, of "replicate 12 CHR ''x''"] by simp
  have b: "fst (sprint_oid [0x55, 0x1d, 0x1f] (replicate 9 CHR ''x'')) = Inl ENOBUFS"
    by (rule sprint_oid_overflow) (simp_all add: t)
  from sprint_OID_never_malformed [OF example_registry_bounds s wf, of "replicate 12 CHR ''x''"]
  show ?thesis
    by (simp only: c a b example_registry_bounds s simp_thms)
qed

text \<open>
  C8, as amended: for every structurally valid input whose text fits the buffer,
  \<open>sprint_oid\<close> succeeds and leaves the dotted-decimal text of the arcs, in input
  order: \<open>n / 40\<close> and \<open>n % 40\<close> of the first octet \<open>n\<close>, then the
  value of every base-128 group reduced modulo \<open>2 ^ 64\<close>. When every arc is below
  \<open>2 ^ 64\<close> this is the text of the arcs themselves; the octet 42 alone prints
  as \<open>1.2\<close>.
\<close>

theorem sprint_oid_arcs:
  "(oid_wellformed data \<and> length (oid_text data) < length buffer \<longrightarrow>
      sprint_oid data buffer =
        (Inr (length (oid_text data)),
         oid_text data @ NUL # drop (length (oid_text data) + 1) buffer) \<and>
      cstring (snd (sprint_oid data buffer)) = oid_text data) \<and>
   ((\<forall>a \<in> set (oid_arcs data). a < 2 ^ 64) \<longrightarrow> oid_text data = dotted (oid_arcs data)) \<and>
   (4 \<le> length buffer \<longrightarrow> cstring (snd (sprint_oid [42] buffer)) = ''1.2'')"
proof (intro conjI impI)
  assume a: "oid_wellformed data \<and> length (oid_text data) < length buffer"
  then have ne: "data \<noteq> []" by (auto simp add: oid_wellformed_def)
  from a sprint_oid_fits [OF ne] show r: "sprint_oid data buffer =
        (Inr (length (oid_text data)),
         oid_text data @ NUL # drop (length (oid_text data) + 1) buffer)"
    by simp
  show "cstring (snd (sprint_oid data buffer)) = oid_text data"
    unfolding r snd_conv using oid_text_no_NUL by (rule cstring_terminated)
next
  assume "\<forall>a \<in> set (oid_arcs data). a < 2 ^ 64"
  then have "map (\<lambda>a. a mod 2 ^ 64) (oid_arcs data) = oid_arcs data"
    by (simp add: map_idI)
  then show "oid_text data = dotted (oid_arcs data)" by (simp add: oid_text_def)
next
  assume big: "4 \<le> length buffer"
  have t: "oid_text [42] = ''1.2''"
    by (simp add: oid_text_def oid_arcs_def dec.simps digit_char_def)
  have wf: "oid_wellformed [42]" by (simp add: oid_wellformed_def truncated_def)
  from big have fit: "length (oid_text [42]) < length buffer" by (simp add: t)
  have r: "sprint_oid [42] buffer =
      (Inr (length (oid_text [42])), oid_text [42] @ NUL # drop (length (oid_text [42]) + 1) buffer)"
    using sprint_oid_fits [OF _ fit] wf by simp
  have "cstring (snd (sprint_oid [42] buffer)) = oid_text [42]"
    unfolding r snd_conv using oid_text_no_NUL by (rule cstring_terminated)
  then show "cstring (snd (sprint_oid [42] buffer)) = ''1.2''" by (simp only: t)
qed

text \<open>
  The claim C8 as stated fails: the third arc of the valid input below is
  \<open>2 ^ 71\<close>, and the text printed is \<open>1.2.0\<close>, not
  \<open>1.2.2361183241434822606848\<close>.
\<close>

theorem sprint_oid_arcs_counterexample:
  "\<not> (oid_wellformed [0x2a, 0x82, 0x80, 0x80, 0x80, 0x80, 0x80, 0x80, 0x80, 0x80, 0x80, 0x00] \<longrightarrow>
       cstring (snd (sprint_oid
         [0x2a, 0x82, 0x80, 0x80, 0x80, 0x80, 0x80, 0x80, 0x80, 0x80, 0x80, 0x00]
         (replicate 32 CHR ''x''))) =
       dotted (oid_arcs [0x2a, 0x82, 0x80, 0x80, 0x80, 0x80, 0x80, 0x80, 0x80, 0x80, 0x80, 0x00]))"
proof -
  have wf: "oid_wellformed [0x2a, 0x82, 0x80, 0x80, 0x80, 0x80, 0x80, 0x80, 0x80, 0x80, 0x80, 0x00]"
    by (simp add: oid_wellformed_def truncated_def)
  have a: "oid_arcs [0x2a, 0x82, 0x80, 0x80, 0x80, 0x80, 0x80, 0x80, 0x80, 0x80, 0x80, 0x00] =
      [1, 2, 2 ^ 71]"
    by (simp add: oid_arcs_def varint_value_def)
  have d: "dotted [1, 2, 2 ^ 71] = ''1.2.2361183241434822606848''"
    by (simp add: dec.simps digit_char_def)
  have t: "oid_text [0x2a, 0x82, 0x80, 0x80, 0x80, 0x80, 0x80, 0x80, 0x80, 0x80, 0x80, 0x00] =
      ''1.2.0''"
    by (simp add: oid_text_def a dec.simps digit_char_def)
  have r: "sprint_oid [0x2a, 0x82, 0x80, 0x80, 0x80, 0x80, 0x80, 0x80, 0x80, 0x80, 0x80, 0x00]
      (replicate 32 CHR ''x'') =
      (Inr (length ''1.2.0''), ''1.2.0'' @ NUL # drop (length ''1.2.0'' + 1) (replicate 32 CHR ''x''))"
    by (rule sprint_oid_text [OF wf t]) simp
  have n: "NUL \<notin> set ''1.2.0''" by (simp add: NUL_def)
  have s: "cstring (snd (sprint_oid
         [0x2a, 0x82, 0x80, 0x80, 0x80, 0x80, 0x80, 0x80, 0x80, 0x80, 0x80, 0x00]
         (replicate 32 CHR ''x''))) = ''1.2.0''"
    unfolding r snd_conv using n by (rule cstring_terminated)
  show ?thesis
    unfolding a d s using wf by simp
qed

theorem sprint_oid_arcs_witness:
  "sprint_oid [0x2a, 0x86, 0x48, 0x86, 0xf7, 0x0d] (replicate 16 CHR ''x'') =
     (Inr 14, ''1.2.840.113549'' @ NUL # replicate 1 CHR ''x'') \<and>
   dotted (oid_arcs [0x2a, 0x86, 0x48, 0x86, 0xf7, 0x0d]) = ''1.2.840.113549''"
proof -
  have wf: "oid_wellformed [0x2a, 0x86, 0x48, 0x86, 0xf7, 0x0d]"
    by (simp add: oid_wellformed_def truncated_def)
  have a: "oid_arcs [0x2a, 0x86, 0x48, 0x86, 0xf7, 0x0d] = [1, 2, 840, 113549]"
    by (simp add: oid_arcs_def varint_value_def)
  have t: "oid_text [0x2a, 0x86, 0x48, 0x86, 0xf7, 0x0d] = ''1.2.840.113549''"
    by (simp add: oid_text_def a dec.simps digit_char_def)
  have d: "dotted [1, 2, 840, 113549] = ''1.2.840.113549''"
    by (simp add: dec.simps digit_char_def)
  from sprint_oid_arcs [of "[0x2a, 0x86, 0x48, 0x86, 0xf7, 0x0d]" "replicate 16 CHR ''x''"] wf
  show ?thesis
    by (simp add: t a d)
qed

text \<open>
  C10: the arc is accumulated in an \<^verbatim>\<open>unsigned long\<close> by shifts of 7 bits, with
  no check for overflow: the number \<open>read_arc\<close> returns is the value of the group
  of octets it has read, reduced modulo \<open>2 ^ 64\<close>. The input below is structurally
  valid and its third arc is \<open>2 ^ 64 + 5\<close>; \<open>sprint_oid\<close> succeeds on it,
  returns 5 and prints \<open>1.2.5\<close>: the arc has wrapped around.
\<close>

theorem sprint_oid_arc_wraps:
  "(read_arc n v = Some (num, v') \<longrightarrow>
      (\<exists>g. oid_groups [] (n # v) = g # oid_groups [] v' \<and>
           unat num = varint_value g mod 2 ^ 64)) \<and>
   oid_wellformed [0x2a, 0x82, 0x80, 0x80, 0x80, 0x80, 0x80, 0x80, 0x80, 0x80, 0x05] \<and>
   oid_arcs [0x2a, 0x82, 0x80, 0x80, 0x80, 0x80, 0x80, 0x80, 0x80, 0x80, 0x05] =
     [1, 2, 2 ^ 64 + 5] \<and>
   sprint_oid [0x2a, 0x82, 0x80, 0x80, 0x80, 0x80, 0x80, 0x80, 0x80, 0x80, 0x05]
     (replicate 8 CHR ''x'') = (Inr 5, ''1.2.5'' @ NUL # replicate 2 CHR ''x'')"
proof (intro conjI impI)
  assume "read_arc n v = Some (num, v')"
  from read_arc_Some [OF this]
  show "\<exists>g. oid_groups [] (n # v) = g # oid_groups [] v' \<and>
           unat num = varint_value g mod 2 ^ 64"
    by blast
next
  show "oid_wellformed [0x2a, 0x82, 0x80, 0x80, 0x80, 0x80, 0x80, 0x80, 0x80, 0x80, 0x05]"
    by (simp add: oid_wellformed_def truncated_def)
  show "oid_arcs [0x2a, 0x82, 0x80, 0x80, 0x80, 0x80, 0x80, 0x80, 0x80, 0x80, 0x05] =
     [1, 2, 2 ^ 64 + 5]"
    by (simp add: oid_arcs_def varint_value_def)
  show "sprint_oid [0x2a, 0x82, 0x80, 0x80, 0x80, 0x80, 0x80, 0x80, 0x80, 0x80, 0x05]
     (replicate 8 CHR ''x'') = (Inr 5, ''1.2.5'' @ NUL # replicate 2 CHR ''x'')"
    by (simp add: sprint_oid_def snprintf_def arcs_loop.simps read_arc_def dec.simps
        digit_char_def)
qed

theorem sprint_oid_arc_wraps_witness:
  "read_arc 0x82 [0x80, 0x80, 0x80, 0x80, 0x80, 0x80, 0x80, 0x80, 0x05] = Some (5, []) \<and>
   (\<exists>g. oid_groups [] [0x82, 0x80, 0x80, 0x80, 0x80, 0x80, 0x80, 0x80, 0x80, 0x05] = [g] \<and>
        varint_value g = 2 ^ 64 + 5 \<and> unat (5 :: 64 word) = varint_value g mod 2 ^ 64)"
proof -
  have e: "read_arc 0x82 [0x80, 0x80, 0x80, 0x80, 0x80, 0x80, 0x80, 0x80, 0x05] = Some (5, [])"
    by (simp add: read_arc_def Let_def)
  from sprint_oid_arc_wraps
    [of "0x82" "[0x80, 0x80, 0x80, 0x80, 0x80, 0x80, 0x80, 0x80, 0x05]" 5 "[]"] e
  obtain g where g: "oid_groups [] [0x82, 0x80, 0x80, 0x80, 0x80, 0x80, 0x80, 0x80, 0x80, 0x05] =
      g # oid_groups [] []"
    and u: "unat (5 :: 64 word) = varint_value g mod 2 ^ 64"
    by blast
  from g have gl: "g = [0x82, 0x80, 0x80, 0x80, 0x80, 0x80, 0x80, 0x80, 0x80, 0x05]" by simp
  have og: "oid_groups [] [0x82, 0x80, 0x80, 0x80, 0x80, 0x80, 0x80, 0x80, 0x80, 0x05] =
      [[0x82, 0x80, 0x80, 0x80, 0x80, 0x80, 0x80, 0x80, 0x80, 0x05]]"
    using g by (simp only: gl oid_groups.simps)
  have vv: "varint_value [0x82, 0x80, 0x80, 0x80, 0x80, 0x80, 0x80, 0x80, 0x80, 0x05] = 2 ^ 64 + 5"
    by (simp add: varint_value_def)
  have m: "unat (5 :: 64 word) =
      varint_value [0x82, 0x80, 0x80, 0x80, 0x80, 0x80, 0x80, 0x80, 0x80, 0x05] mod 2 ^ 64"
    using u by (simp only: gl)
  show ?thesis
    by (intro conjI exI [of _ "[0x82, 0x80, 0x80, 0x80, 0x80, 0x80, 0x80, 0x80, 0x80, 0x05]"])
      (rule e, rule og, rule vv, rule m)
qed

end
